theory Spec2Isabelle
  imports Main
begin

text \<open>
  The nested loop join executor of Peloton, \<open>src/executor/nested_loop_join_executor.cpp\<close>:
  the materializing loop \<open>Old_DExecute\<close> and the correlated-probe loop \<open>DExecute\<close>,
  as functions on an explicit executor state. The collaborators that the file calls but
  does not contain (child executors, the match tracker and the outer-completion emitter
  of the abstract join executor) are modelled from the specification and marked so.
\<close>

section \<open>Data model\<close>

text \<open>
  Row ids and column ids are \<open>oid_t\<close>; a \<open>common::Value\<close> is an integer here.
  A logical tile is an ordered sequence of rows, each with its visibility flag; the
  range-based \<open>for (auto row : *tile)\<close> of the source visits the ids of the visible
  rows in increasing order.
\<close>

type_synonym oid = nat
type_synonym val = int
type_synonym tuple = "val list"
type_synonym logical_tile = "(bool \<times> tuple) list"

definition tile_rows :: "logical_tile \<Rightarrow> oid list" where
  "tile_rows t = filter (\<lambda>i. fst (t ! i)) [0..<length t]"

text \<open>\<open>ContainerTuple(tile, row).GetValue(col)\<close>; reading outside the tile is a fault.\<close>

definition GetValue :: "logical_tile \<Rightarrow> oid \<Rightarrow> oid \<Rightarrow> val option" where
  "GetValue t row col =
     (if row < length t \<and> col < length (snd (t ! row)) then Some (snd (t ! row) ! col)
      else None)"

text \<open>
  The join predicate: \<open>Evaluate\<close> yields true, false or unknown, and \<open>GetLeft\<close> is the
  left operand, which \<open>DExecute\<close> casts to a \<open>TupleValueExpression\<close>.
\<close>

datatype eval_result = Is_True | Is_False | Is_Null

definition IsFalse :: "eval_result \<Rightarrow> bool" where
  "IsFalse e = (e = Is_False)"

datatype expression = TupleValueExpression oid | ConstantValueExpression val

record join_predicate =
  GetLeft :: "expression option"
  Evaluate :: "tuple \<Rightarrow> tuple \<Rightarrow> eval_result"

datatype plan_node_type = PLAN_NODE_TYPE_INDEXSCAN | PLAN_NODE_TYPE_SEQSCAN

datatype join_type = JOIN_TYPE_INNER | JOIN_TYPE_LEFT | JOIN_TYPE_RIGHT | JOIN_TYPE_OUTER

text \<open>
  Modelled from the spec: the child operator (section 6: \<open>pull\<close>, \<open>currentBatch\<close>,
  \<open>pushBound\<close>, \<open>resetScanState\<close>), whose executors are not part of the source file.
  A child produces the finite batch sequence \<open>scan_result\<close> for the key bound under
  which its scan starts; \<open>scan_pending\<close> is the scan state: \<open>None\<close> before the scan has
  started, otherwise the batches still to be produced. A pushed bound is stored in
  \<open>key_value\<close> and scopes the next scan that starts; \<open>key_accepted\<close> says which pushes
  the plan accepts.
\<close>

record child_executor =
  GetPlanNodeType :: plan_node_type
  scan_result :: "val \<Rightarrow> logical_tile list"
  key_value :: val
  key_accepted :: "oid \<Rightarrow> val \<Rightarrow> bool"
  scan_pending :: "logical_tile list option"

definition remaining_tiles :: "child_executor \<Rightarrow> logical_tile list" where
  "remaining_tiles c =
     (case scan_pending c of None \<Rightarrow> scan_result c (key_value c) | Some ts \<Rightarrow> ts)"

text \<open>\<open>child->Execute()\<close> followed by \<open>child->GetOutput()\<close>: \<open>None\<close> is exhaustion.\<close>

definition Execute :: "child_executor \<Rightarrow> logical_tile option \<times> child_executor" where
  "Execute c =
     (case remaining_tiles c of
        [] \<Rightarrow> (None, c\<lparr>scan_pending := Some []\<rparr>)
      | t # ts \<Rightarrow> (Some t, c\<lparr>scan_pending := Some ts\<rparr>))"

definition ReplaceKeyValue :: "oid \<Rightarrow> val \<Rightarrow> child_executor \<Rightarrow> bool \<times> child_executor" where
  "ReplaceKeyValue col v c =
     (if key_accepted c col v then (True, c\<lparr>key_value := v\<rparr>) else (False, c))"

definition ResetState :: "child_executor \<Rightarrow> child_executor" where
  "ResetState c = c\<lparr>scan_pending := None\<rparr>"

text \<open>
  The output of a call: a joined tile refers to its two source tiles by their positions in
  the buffers and carries the position-list pair; the outer-completion batches pair the
  listed rows of one buffered tile with the null row.
\<close>

datatype join_output =
    Joined_Tile nat nat "(oid \<times> oid) list"
  | Left_Padded nat "oid list"
  | Right_Padded nat "oid list"

text \<open>
  The executor. \<open>children0\<close> and \<open>children1\<close> are \<open>children_[0]\<close> and \<open>children_[1]\<close>;
  the fields of the source keep their names without the trailing underscore.
  \<open>left_matched\<close> and \<open>right_matched\<close> are the match bitsets, one per buffered tile,
  \<open>left_matching_idx\<close> and \<open>right_matching_idx\<close> the cursors of the outer-completion
  emitter. \<open>asserts_enabled\<close> says whether \<open>PL_ASSERT\<close> is compiled in.
\<close>

record executor =
  children0 :: child_executor
  children1 :: child_executor
  predicate :: "join_predicate option"
  join_type :: join_type
  left_result_tiles :: "logical_tile list"
  right_result_tiles :: "logical_tile list"
  left_result_itr :: nat
  left_child_done :: bool
  right_child_done :: bool
  left_matched :: "bool list list"
  right_matched :: "bool list list"
  left_matching_idx :: nat
  right_matching_idx :: nat
  asserts_enabled :: bool

text \<open>
  What the source leaves undefined (a null or mistyped pointer, an index outside a
  vector) or aborts on (a failed \<open>PL_ASSERT\<close>) is a fault of the model.
\<close>

datatype fault = Null_Dereference | Bad_Downcast | Out_Of_Range | Assertion_Failed

text \<open>
  One pass through the body of \<open>for (;;)\<close> either faults, returns from the call
  (\<open>Some out\<close> is \<open>SetOutput(out); return true\<close>, \<open>None\<close> is \<open>return false\<close>), or goes
  round again.
\<close>

datatype iteration = Fault fault | Return "join_output option" executor | Continue executor

section \<open>Match tracker and outer-completion emitter\<close>

text \<open>
  Modelled from the spec: \<open>BufferLeftTile\<close>, \<open>BufferRightTile\<close>, \<open>RecordMatchedLeftRow\<close>
  and \<open>RecordMatchedRightRow\<close> of the abstract join executor, which the source file calls
  but does not contain (sections 3 and 4.3: a bitset per buffered batch, as long as the
  batch, created when the batch is buffered; recording a match sets the bit).
\<close>

definition BufferLeftTile :: "logical_tile \<Rightarrow> executor \<Rightarrow> executor" where
  "BufferLeftTile t s =
     s\<lparr>left_result_tiles := left_result_tiles s @ [t],
       left_matched := left_matched s @ [replicate (length t) False]\<rparr>"

definition BufferRightTile :: "logical_tile \<Rightarrow> executor \<Rightarrow> executor" where
  "BufferRightTile t s =
     s\<lparr>right_result_tiles := right_result_tiles s @ [t],
       right_matched := right_matched s @ [replicate (length t) False]\<rparr>"

definition set_bit_at :: "nat \<Rightarrow> oid \<Rightarrow> bool list list \<Rightarrow> bool list list" where
  "set_bit_at b i bits = (if b < length bits then bits[b := (bits ! b)[i := True]] else bits)"

definition RecordMatchedLeftRow :: "nat \<Rightarrow> oid \<Rightarrow> executor \<Rightarrow> executor" where
  "RecordMatchedLeftRow b i s = s\<lparr>left_matched := set_bit_at b i (left_matched s)\<rparr>"

definition RecordMatchedRightRow :: "nat \<Rightarrow> oid \<Rightarrow> executor \<Rightarrow> executor" where
  "RecordMatchedRightRow b i s = s\<lparr>right_matched := set_bit_at b i (right_matched s)\<rparr>"

text \<open>
  Modelled from the spec: \<open>BuildOuterJoinOutput\<close>, the outer-completion emitter of the
  abstract join executor (section 4.4). An inner join emits nothing. For a left outer join
  each call emits, for the next buffered left batch at or after the emission cursor that
  has a visible row whose bit is unset, all those rows paired with the null row, and moves
  the cursor past that batch; when no such batch is left it reports exhaustion. Right
  outer is symmetric, full outer drains the left side and then the right side.
\<close>

definition unmatched_rows :: "logical_tile \<times> bool list \<Rightarrow> oid list" where
  "unmatched_rows tb = filter (\<lambda>i. \<not> (i < length (snd tb) \<and> snd tb ! i)) (tile_rows (fst tb))"

fun first_unmatched :: "(logical_tile \<times> bool list) list \<Rightarrow> nat list \<Rightarrow> (nat \<times> oid list) option" where
  "first_unmatched batches [] = None"
| "first_unmatched batches (k # ks) =
     (if unmatched_rows (batches ! k) = [] then first_unmatched batches ks
      else Some (k, unmatched_rows (batches ! k)))"

definition left_batches :: "executor \<Rightarrow> (logical_tile \<times> bool list) list" where
  "left_batches s = zip (left_result_tiles s) (left_matched s)"

definition right_batches :: "executor \<Rightarrow> (logical_tile \<times> bool list) list" where
  "right_batches s = zip (right_result_tiles s) (right_matched s)"

definition BuildLeftJoinOutput :: "executor \<Rightarrow> join_output option \<times> executor" where
  "BuildLeftJoinOutput s =
     (case first_unmatched (left_batches s) [left_matching_idx s..<length (left_batches s)] of
        None \<Rightarrow> (None, s)
      | Some (k, rows) \<Rightarrow> (Some (Left_Padded k rows), s\<lparr>left_matching_idx := Suc k\<rparr>))"

definition BuildRightJoinOutput :: "executor \<Rightarrow> join_output option \<times> executor" where
  "BuildRightJoinOutput s =
     (case first_unmatched (right_batches s) [right_matching_idx s..<length (right_batches s)] of
        None \<Rightarrow> (None, s)
      | Some (k, rows) \<Rightarrow> (Some (Right_Padded k rows), s\<lparr>right_matching_idx := Suc k\<rparr>))"

definition BuildOuterJoinOutput :: "executor \<Rightarrow> join_output option \<times> executor" where
  "BuildOuterJoinOutput s =
     (case join_type s of
        JOIN_TYPE_INNER \<Rightarrow> (None, s)
      | JOIN_TYPE_LEFT \<Rightarrow> BuildLeftJoinOutput s
      | JOIN_TYPE_RIGHT \<Rightarrow> BuildRightJoinOutput s
      | JOIN_TYPE_OUTER \<Rightarrow>
          (case BuildLeftJoinOutput s of
             (Some out, s') \<Rightarrow> (Some out, s')
           | (None, s') \<Rightarrow> BuildRightJoinOutput s'))"

definition return_BuildOuterJoinOutput :: "executor \<Rightarrow> iteration" where
  "return_BuildOuterJoinOutput s = (case BuildOuterJoinOutput s of (out, s') \<Rightarrow> Return out s')"

section \<open>Pairwise matcher\<close>

text \<open>
  The two nested loops over the rows of the picked tiles (lines 173 to 208 of
  \<open>Old_DExecute\<close>, lines 355 to 390 of \<open>DExecute\<close>, the same text). The inner loop runs
  over the visible rows of the left tile for one right row and threads
  \<open>has_left_match\<close>, the position lists builder and the executor; \<open>AddRow\<close> appends.
\<close>

definition predicate_rejects :: "executor \<Rightarrow> tuple \<Rightarrow> tuple \<Rightarrow> bool" where
  "predicate_rejects s l r =
     (case predicate s of None \<Rightarrow> False | Some p \<Rightarrow> IsFalse (Evaluate p l r))"

fun join_inner_loop ::
  "logical_tile \<Rightarrow> logical_tile \<Rightarrow> oid \<Rightarrow> oid list \<Rightarrow>
   bool \<times> (oid \<times> oid) list \<times> executor \<Rightarrow> bool \<times> (oid \<times> oid) list \<times> executor" where
  "join_inner_loop left_tile right_tile j [] acc = acc"
| "join_inner_loop left_tile right_tile j (i # rows) (has_left_match, builder, s) =
     (if predicate_rejects s (snd (left_tile ! i)) (snd (right_tile ! j))
      then join_inner_loop left_tile right_tile j rows (has_left_match, builder, s)
      else join_inner_loop left_tile right_tile j rows
             (True, builder @ [(i, j)], RecordMatchedLeftRow (left_result_itr s) i s))"

fun join_outer_loop ::
  "logical_tile \<Rightarrow> logical_tile \<Rightarrow> oid list \<Rightarrow>
   (oid \<times> oid) list \<times> executor \<Rightarrow> (oid \<times> oid) list \<times> executor" where
  "join_outer_loop left_tile right_tile [] acc = acc"
| "join_outer_loop left_tile right_tile (j # rows) (builder, s) =
     (case join_inner_loop left_tile right_tile j (tile_rows left_tile) (False, builder, s) of
        (has_left_match, builder', s') \<Rightarrow>
          join_outer_loop left_tile right_tile rows
            (builder',
             if has_left_match
             then RecordMatchedRightRow (length (right_result_tiles s') - 1) j s'
             else s'))"

text \<open>
  Building the join tile and the test on the size of the builder (lines 167 to 217 and
  349 to 399): a pair with no position is not returned, the loop goes round again.
\<close>

definition build_join_tile :: "logical_tile \<Rightarrow> logical_tile \<Rightarrow> executor \<Rightarrow> iteration" where
  "build_join_tile left_tile right_tile s =
     (case join_outer_loop left_tile right_tile (tile_rows right_tile) ([], s) of
        (builder, s') \<Rightarrow>
          if length builder > 0
          then Return (Some (Joined_Tile (left_result_itr s') (length (right_result_tiles s') - 1)
                               builder)) s'
          else Continue s')"

section \<open>The control loops\<close>

text \<open>
  Picking the left tile (lines 97 to 128 of \<open>Old_DExecute\<close>, lines 239 to 269 of
  \<open>DExecute\<close>, the same text): the result is \<open>advance_right_child\<close> and the executor.
\<close>

definition pick_left :: "executor \<Rightarrow> fault + bool \<times> executor" where
  "pick_left s =
     (if left_child_done s then
        if asserts_enabled s \<and> right_result_tiles s = [] then Inl Assertion_Failed
        else
          let s1 = s\<lparr>left_result_itr := left_result_itr s + 1\<rparr> in
          if left_result_itr s1 \<ge> length (left_result_tiles s1)
          then Inr (True, s1\<lparr>left_result_itr := 0\<rparr>)
          else Inr (False, s1)
      else
        case Execute (children0 s) of
          (None, c) \<Rightarrow>
            Inr (True, s\<lparr>children0 := c, left_child_done := True, left_result_itr := 0\<rparr>)
        | (Some t, c) \<Rightarrow>
            let s1 = BufferLeftTile t (s\<lparr>children0 := c\<rparr>) in
            Inr (False, s1\<lparr>left_result_itr := length (left_result_tiles s1) - 1\<rparr>))"

text \<open>Lines 130 to 157 of \<open>Old_DExecute\<close>: advancing the right child.\<close>

definition old_pick_right :: "bool \<Rightarrow> executor \<Rightarrow> iteration" where
  "old_pick_right advance_right_child s =
     (if advance_right_child \<or> right_result_tiles s = [] then
        if right_child_done s \<and> right_result_tiles s = [] then return_BuildOuterJoinOutput s
        else if asserts_enabled s \<and> left_result_itr s \<noteq> 0 then Fault Assertion_Failed
        else
          case Execute (children1 s) of
            (None, c) \<Rightarrow>
              return_BuildOuterJoinOutput (s\<lparr>children1 := c, right_child_done := True\<rparr>)
          | (Some t, c) \<Rightarrow>
              let s1 = BufferRightTile t (s\<lparr>children1 := c\<rparr>) in
              if left_child_done s1 \<and> left_result_tiles s1 = []
              then return_BuildOuterJoinOutput s1
              else Continue s1
      else Continue s)"

text \<open>
  Lines 159 to 217: \<open>right_result_tiles_.back()\<close> and
  \<open>left_result_tiles_[left_result_itr_]\<close>, then the matcher.
\<close>

definition old_join :: "executor \<Rightarrow> iteration" where
  "old_join s =
     (if right_result_tiles s = [] then Fault Out_Of_Range
      else if left_result_itr s \<ge> length (left_result_tiles s) then Fault Out_Of_Range
      else build_join_tile (left_result_tiles s ! left_result_itr s)
             (last (right_result_tiles s)) s)"

definition Old_DExecute_body :: "executor \<Rightarrow> iteration" where
  "Old_DExecute_body s =
     (if left_child_done s \<and> right_child_done s then return_BuildOuterJoinOutput s
      else
        case pick_left s of
          Inl f \<Rightarrow> Fault f
        | Inr (advance_right_child, s1) \<Rightarrow>
            (case old_pick_right advance_right_child s1 of
               Continue s2 \<Rightarrow> old_join s2
             | r \<Rightarrow> r))"

text \<open>
  The inner \<open>for (;;)\<close> of \<open>DExecute\<close> (lines 310 to 330): the right child is pulled
  until it reports exhaustion and every tile it produces is buffered. On exhaustion the
  right child is reset through the unchecked cast to \<open>IndexScanExecutor\<close> when the left
  child is not done (a fault when the right child is no index scan: the source leaves a
  TODO for the missing test), and \<open>right_child_done_\<close> is set otherwise. \<open>Continue\<close>
  here is the \<open>break\<close>. \<open>scan_length\<close> bounds the number of pulls.
\<close>

definition scan_length :: "child_executor \<Rightarrow> nat" where
  "scan_length c =
     (case scan_pending c of
        None \<Rightarrow> Suc (length (scan_result c (key_value c)))
      | Some ts \<Rightarrow> length ts)"

function lookup_right :: "executor \<Rightarrow> iteration" where
  "lookup_right s =
     (case Execute (children1 s) of
        (Some t, c) \<Rightarrow>
          let s1 = BufferRightTile t (s\<lparr>children1 := c\<rparr>) in
          if left_child_done s1 \<and> left_result_tiles s1 = [] then return_BuildOuterJoinOutput s1
          else lookup_right s1
      | (None, c) \<Rightarrow>
          if \<not> left_child_done s then
            if GetPlanNodeType c = PLAN_NODE_TYPE_INDEXSCAN
            then Continue (s\<lparr>children1 := ResetState c\<rparr>)
            else Fault Bad_Downcast
          else Continue (s\<lparr>children1 := c, right_child_done := True\<rparr>))"
  by pat_completeness auto
termination
  by (relation "measure (\<lambda>s. scan_length (children1 s))")
     (auto simp: Execute_def remaining_tiles_def scan_length_def BufferRightTile_def
       split: list.splits option.splits)

text \<open>
  The body of the loop over the rows of the left tile (lines 274 to 330): the column of
  the predicate's left operand, the value of the row in that column, the push of that
  value into an index scan, and the lookup. The line printed on \<open>std::cout\<close> before the
  push is left out.
\<close>

definition probe_left_row :: "logical_tile \<Rightarrow> oid \<Rightarrow> executor \<Rightarrow> iteration" where
  "probe_left_row left_tile row s =
     (case predicate s of
        None \<Rightarrow> Fault Null_Dereference
      | Some p \<Rightarrow>
          (case GetLeft p of
             None \<Rightarrow> Fault Null_Dereference
           | Some (ConstantValueExpression v) \<Rightarrow> Fault Bad_Downcast
           | Some (TupleValueExpression predicate_coloumn) \<Rightarrow>
               (case GetValue left_tile row predicate_coloumn of
                  None \<Rightarrow> Fault Out_Of_Range
                | Some predicate_value \<Rightarrow>
                    (case (if GetPlanNodeType (children1 s) = PLAN_NODE_TYPE_INDEXSCAN
                           then ReplaceKeyValue predicate_coloumn predicate_value (children1 s)
                           else (True, children1 s)) of
                       (False, c) \<Rightarrow> Return None (s\<lparr>children1 := c\<rparr>)
                     | (True, c) \<Rightarrow>
                         let s1 = s\<lparr>children1 := c\<rparr> in
                         if right_child_done s1 \<and> right_result_tiles s1 = []
                         then return_BuildOuterJoinOutput s1
                         else if asserts_enabled s1 \<and> left_result_itr s1 \<noteq> 0
                         then Fault Assertion_Failed
                         else lookup_right s1))))"

fun probe_rows :: "logical_tile \<Rightarrow> oid list \<Rightarrow> executor \<Rightarrow> iteration" where
  "probe_rows left_tile [] s = Continue s"
| "probe_rows left_tile (row # rows) s =
     (case probe_left_row left_tile row s of
        Continue s1 \<Rightarrow> probe_rows left_tile rows s1
      | r \<Rightarrow> r)"

text \<open>Lines 333 to 399 of \<open>DExecute\<close>: the check after the probes, \<open>back()\<close>, the matcher.\<close>

definition new_join :: "bool \<Rightarrow> logical_tile \<Rightarrow> executor \<Rightarrow> iteration" where
  "new_join advance_right_child left_tile s =
     (if (advance_right_child \<or> right_result_tiles s = [])
         \<and> right_child_done s \<and> right_result_tiles s = []
      then return_BuildOuterJoinOutput s
      else if (advance_right_child \<or> right_result_tiles s = [])
         \<and> asserts_enabled s \<and> left_result_itr s \<noteq> 0
      then Fault Assertion_Failed
      else if right_result_tiles s = [] then Fault Out_Of_Range
      else build_join_tile left_tile (last (right_result_tiles s)) s)"

definition DExecute_body :: "executor \<Rightarrow> iteration" where
  "DExecute_body s =
     (if left_child_done s \<and> right_child_done s then return_BuildOuterJoinOutput s
      else
        case pick_left s of
          Inl f \<Rightarrow> Fault f
        | Inr (advance_right_child, s1) \<Rightarrow>
            if left_result_itr s1 \<ge> length (left_result_tiles s1) then Fault Out_Of_Range
            else
              let left_tile = left_result_tiles s1 ! left_result_itr s1 in
              (case probe_rows left_tile (tile_rows left_tile) s1 of
                 Continue s2 \<Rightarrow> new_join advance_right_child left_tile s2
               | r \<Rightarrow> r))"

text \<open>
  \<open>DExecute\<close>: the body is repeated until it returns or faults. The loop need not end
  from every state, so the call is a partial function: \<open>None\<close> is a call that never
  returns.
\<close>

partial_function (option) DExecute :: "executor \<Rightarrow> (fault + join_output option \<times> executor) option" where
  "DExecute s =
     (case DExecute_body s of
        Fault f \<Rightarrow> Some (Inl f)
      | Return out s' \<Rightarrow> Some (Inr (out, s'))
      | Continue s' \<Rightarrow> DExecute s')"

declare DExecute.simps [code]

section \<open>The matcher changes the match bitsets only\<close>

definition same_control :: "executor \<Rightarrow> executor \<Rightarrow> bool" where
  "same_control s s' \<longleftrightarrow>
     s' = s\<lparr>left_matched := left_matched s', right_matched := right_matched s'\<rparr>"

lemma same_control_refl [simp]: "same_control s s"
  by (simp add: same_control_def)

lemma same_control_trans: "same_control s s' \<Longrightarrow> same_control s' s'' \<Longrightarrow> same_control s s''"
  unfolding same_control_def
  by (metis (no_types, lifting) executor.surjective executor.update_convs(10)
      executor.update_convs(11))

lemma same_controlD:
  assumes "same_control s s'"
  shows "children0 s' = children0 s" "children1 s' = children1 s" "predicate s' = predicate s"
    "join_type s' = join_type s" "left_result_tiles s' = left_result_tiles s"
    "right_result_tiles s' = right_result_tiles s" "left_result_itr s' = left_result_itr s"
    "left_child_done s' = left_child_done s" "right_child_done s' = right_child_done s"
    "left_matching_idx s' = left_matching_idx s" "right_matching_idx s' = right_matching_idx s"
    "asserts_enabled s' = asserts_enabled s"
proof -
  from assms have eq: "s' = s\<lparr>left_matched := left_matched s', right_matched := right_matched s'\<rparr>"
    by (simp add: same_control_def)
  show "children0 s' = children0 s" by (subst eq) simp
  show "children1 s' = children1 s" by (subst eq) simp
  show "predicate s' = predicate s" by (subst eq) simp
  show "join_type s' = join_type s" by (subst eq) simp
  show "left_result_tiles s' = left_result_tiles s" by (subst eq) simp
  show "right_result_tiles s' = right_result_tiles s" by (subst eq) simp
  show "left_result_itr s' = left_result_itr s" by (subst eq) simp
  show "left_child_done s' = left_child_done s" by (subst eq) simp
  show "right_child_done s' = right_child_done s" by (subst eq) simp
  show "left_matching_idx s' = left_matching_idx s" by (subst eq) simp
  show "right_matching_idx s' = right_matching_idx s" by (subst eq) simp
  show "asserts_enabled s' = asserts_enabled s" by (subst eq) simp
qed

lemma same_control_RecordMatchedLeftRow [simp]: "same_control s (RecordMatchedLeftRow b i s)"
  by (simp add: same_control_def RecordMatchedLeftRow_def)

lemma same_control_RecordMatchedRightRow [simp]: "same_control s (RecordMatchedRightRow b i s)"
  by (simp add: same_control_def RecordMatchedRightRow_def)

lemma join_inner_loop_frame:
  "join_inner_loop lt rt j rows (h, b, s) = (h', b', s') \<Longrightarrow> same_control s s'"
proof (induction rows arbitrary: h b s)
  case Nil
  then show ?case by simp
next
  case (Cons i rows)
  show ?case
  proof (cases "predicate_rejects s (snd (lt ! i)) (snd (rt ! j))")
    case True
    with Cons show ?thesis by simp
  next
    case False
    with Cons.prems have "join_inner_loop lt rt j rows
        (True, b @ [(i, j)], RecordMatchedLeftRow (left_result_itr s) i s) = (h', b', s')"
      by simp
    from Cons.IH[OF this] have "same_control (RecordMatchedLeftRow (left_result_itr s) i s) s'" .
    then show ?thesis using same_control_trans same_control_RecordMatchedLeftRow by blast
  qed
qed

lemma join_outer_loop_frame:
  "join_outer_loop lt rt rows (b, s) = (b', s') \<Longrightarrow> same_control s s'"
proof (induction rows arbitrary: b s)
  case Nil
  then show ?case by simp
next
  case (Cons j rows)
  obtain h b1 s1 where inner: "join_inner_loop lt rt j (tile_rows lt) (False, b, s) = (h, b1, s1)"
    by (metis prod_cases3)
  let ?s2 = "if h then RecordMatchedRightRow (length (right_result_tiles s1) - 1) j s1 else s1"
  from Cons.prems inner have "join_outer_loop lt rt rows (b1, ?s2) = (b', s')" by simp
  from Cons.IH[OF this] have "same_control ?s2 s'" .
  moreover have "same_control s1 ?s2" by simp
  moreover have "same_control s s1" using inner by (rule join_inner_loop_frame)
  ultimately show ?case using same_control_trans by blast
qed

lemma build_join_tile_Continue: "build_join_tile lt rt s = Continue s' \<Longrightarrow> same_control s s'"
  by (auto simp: build_join_tile_def split: prod.splits if_splits dest: join_outer_loop_frame)

lemma build_join_tile_Return: "build_join_tile lt rt s = Return out s' \<Longrightarrow> same_control s s'"
  by (auto simp: build_join_tile_def split: prod.splits if_splits dest: join_outer_loop_frame)

lemma build_join_tile_no_Fault [simp]: "build_join_tile lt rt s \<noteq> Fault f"
  by (auto simp: build_join_tile_def split: prod.splits)

section \<open>\<open>Old_DExecute\<close> returns from every state\<close>

definition old_measure :: "executor \<Rightarrow> nat \<times> nat" where
  "old_measure s =
     (length (remaining_tiles (children0 s)) + (if left_child_done s then 0 else 1),
      length (remaining_tiles (children1 s)) * (length (left_result_tiles s) + 1)
        + (length (left_result_tiles s) - left_result_itr s))"

lemma Execute_Some: "Execute c = (Some t, c') \<Longrightarrow> remaining_tiles c = t # remaining_tiles c'"
  by (auto simp: Execute_def remaining_tiles_def split: list.splits)

lemma Execute_None: "Execute c = (None, c') \<Longrightarrow> remaining_tiles c = [] \<and> remaining_tiles c' = []"
  by (auto simp: Execute_def remaining_tiles_def split: list.splits)

lemma old_join_Continue: "old_join s = Continue s' \<Longrightarrow> same_control s s'"
  by (auto simp: old_join_def split: if_splits dest: build_join_tile_Continue)

lemma pick_pair_decreases:
  assumes pl: "pick_left s = Inr (adv, s1)"
    and pr: "old_pick_right adv s1 = Continue s2"
    and inb: "left_result_itr s2 < length (left_result_tiles s2)"
  shows "(old_measure s2, old_measure s) \<in> less_than <*lex*> less_than"
proof (cases "left_child_done s")
  case True
  with pl pr inb show ?thesis
    by (auto simp: pick_left_def old_pick_right_def Let_def old_measure_def
        return_BuildOuterJoinOutput_def BufferRightTile_def
        split: if_splits prod.splits option.splits dest!: Execute_Some Execute_None)
next
  case False
  with pl pr inb show ?thesis
    by (auto simp: pick_left_def old_pick_right_def Let_def old_measure_def
        return_BuildOuterJoinOutput_def BufferRightTile_def BufferLeftTile_def
        split: if_splits prod.splits option.splits dest!: Execute_Some Execute_None)
qed

lemma Old_body_decreases:
  assumes "Old_DExecute_body s = Continue s'"
  shows "(old_measure s', old_measure s) \<in> less_than <*lex*> less_than"
proof -
  from assms obtain adv s1 s2 where
    pl: "pick_left s = Inr (adv, s1)" and
    pr: "old_pick_right adv s1 = Continue s2" and
    oj: "old_join s2 = Continue s'"
    by (auto simp: Old_DExecute_body_def return_BuildOuterJoinOutput_def
        split: if_splits sum.splits prod.splits iteration.splits)
  have sc: "same_control s2 s'" using oj by (rule old_join_Continue)
  have m: "old_measure s' = old_measure s2"
    using same_controlD[OF sc] by (simp add: old_measure_def)
  from oj have inb: "left_result_itr s2 < length (left_result_tiles s2)"
    by (auto simp: old_join_def split: if_splits)
  from pick_pair_decreases[OF pl pr inb] show ?thesis unfolding m .
qed

text \<open>\<open>Old_DExecute\<close>: the body is repeated until it returns or faults.\<close>

function Old_DExecute :: "executor \<Rightarrow> fault + join_output option \<times> executor" where
  "Old_DExecute s =
     (case Old_DExecute_body s of
        Fault f \<Rightarrow> Inl f
      | Return out s' \<Rightarrow> Inr (out, s')
      | Continue s' \<Rightarrow> Old_DExecute s')"
  by pat_completeness auto
termination
  by (relation "inv_image (less_than <*lex*> less_than) old_measure")
     (auto dest: Old_body_decreases)

text \<open>
  The executor before the first call: nothing buffered, no child pulled, both flags
  unset.
\<close>

definition batch_source :: "plan_node_type \<Rightarrow> (val \<Rightarrow> logical_tile list) \<Rightarrow> child_executor" where
  "batch_source ty f =
     \<lparr>GetPlanNodeType = ty, scan_result = f, key_value = 0, key_accepted = (\<lambda>c v. True),
      scan_pending = None\<rparr>"

definition fresh_executor ::
  "child_executor \<Rightarrow> child_executor \<Rightarrow> join_predicate option \<Rightarrow> join_type \<Rightarrow> bool \<Rightarrow> executor" where
  "fresh_executor l r p jt dbg =
     \<lparr>children0 = l, children1 = r, predicate = p, join_type = jt,
      left_result_tiles = [], right_result_tiles = [], left_result_itr = 0,
      left_child_done = False, right_child_done = False, left_matched = [], right_matched = [],
      left_matching_idx = 0, right_matching_idx = 0, asserts_enabled = dbg\<rparr>"

section \<open>Match marking\<close>

lemma set_bit_at_idem: "set_bit_at b i (set_bit_at b i bits) = set_bit_at b i bits"
  by (simp add: set_bit_at_def)

text \<open>
  C8. Match marking is idempotent: recording the same left-side or right-side match
  (batch index, row index) a second time leaves the executor, and so its match bitsets,
  as recording it once did.
\<close>

theorem match_marking_idempotent:
  "RecordMatchedLeftRow b i (RecordMatchedLeftRow b i s) = RecordMatchedLeftRow b i s \<and>
   RecordMatchedRightRow b i (RecordMatchedRightRow b i s) = RecordMatchedRightRow b i s"
  by (simp add: RecordMatchedLeftRow_def RecordMatchedRightRow_def set_bit_at_idem)

section \<open>What the pairwise matcher computes\<close>

text \<open>
  The expected behaviour of the matcher, written from the specification and not from the
  loops: \<open>spec_accepts\<close> holds of a row pair that counts as a match, which is the case
  when no predicate is configured, and otherwise when the predicate evaluates to true or
  to unknown on the pair, and not when it evaluates to false. \<open>join_matches\<close> lists the
  accepted pairs, right rows outermost. \<open>mark_rows P b bits\<close> sets, in the bitset of
  batch \<open>b\<close>, the bit of every row that satisfies \<open>P\<close>.
\<close>

definition mark_rows :: "(oid \<Rightarrow> bool) \<Rightarrow> nat \<Rightarrow> bool list list \<Rightarrow> bool list list" where
  "mark_rows P b bits =
     (if b < length bits
      then bits[b := map (\<lambda>i. bits ! b ! i \<or> P i) [0..<length (bits ! b)]]
      else bits)"

definition spec_accepts :: "executor \<Rightarrow> logical_tile \<Rightarrow> logical_tile \<Rightarrow> oid \<Rightarrow> oid \<Rightarrow> bool" where
  "spec_accepts s lt rt i j =
     (case predicate s of
        None \<Rightarrow> True
      | Some p \<Rightarrow>
          (case Evaluate p (snd (lt ! i)) (snd (rt ! j)) of
             Is_True \<Rightarrow> True
           | Is_Null \<Rightarrow> True
           | Is_False \<Rightarrow> False))"

definition join_matches :: "executor \<Rightarrow> logical_tile \<Rightarrow> logical_tile \<Rightarrow> (oid \<times> oid) list" where
  "join_matches s lt rt =
     concat (map (\<lambda>j. map (\<lambda>i. (i, j)) (filter (\<lambda>i. spec_accepts s lt rt i j) (tile_rows lt)))
       (tile_rows rt))"

lemma length_mark_rows [simp]: "length (mark_rows P b bits) = length bits"
  by (simp add: mark_rows_def)

lemma mark_rows_False [simp]: "mark_rows (\<lambda>i. False) b bits = bits"
  by (simp add: mark_rows_def map_nth)

lemma set_bit_at_eq_mark_rows: "set_bit_at b i bits = mark_rows (\<lambda>x. x = i) b bits"
proof (cases "b < length bits")
  case True
  have "(bits ! b)[i := True] = map (\<lambda>k. bits ! b ! k \<or> k = i) [0..<length (bits ! b)]"
  proof (rule nth_equalityI)
    show "length ((bits ! b)[i := True]) = length (map (\<lambda>k. bits ! b ! k \<or> k = i) [0..<length (bits ! b)])"
      by simp
  next
    fix k assume "k < length ((bits ! b)[i := True])"
    then show "(bits ! b)[i := True] ! k = map (\<lambda>k. bits ! b ! k \<or> k = i) [0..<length (bits ! b)] ! k"
      by (cases "k = i") simp_all
  qed
  with True show ?thesis by (simp add: set_bit_at_def mark_rows_def)
next
  case False
  then show ?thesis by (simp add: set_bit_at_def mark_rows_def)
qed

lemma mark_rows_mark_rows:
  "mark_rows P b (mark_rows Q b bits) = mark_rows (\<lambda>x. Q x \<or> P x) b bits"
  by (auto simp: mark_rows_def intro!: arg_cong[where f="list_update bits b"])

lemma predicate_rejects_cong:
  "predicate s' = predicate s \<Longrightarrow> predicate_rejects s' = predicate_rejects s"
  by (auto simp: predicate_rejects_def fun_eq_iff)

text \<open>
  The test of the loops, \<open>predicate_rejects\<close>, skips exactly the pairs that are not
  accepted.
\<close>

lemma predicate_rejects_iff:
  "predicate_rejects s (snd (lt ! i)) (snd (rt ! j)) \<longleftrightarrow> \<not> spec_accepts s lt rt i j"
  by (simp add: spec_accepts_def predicate_rejects_def IsFalse_def
      split: option.split eval_result.split)

lemma spec_accepts_update [simp]:
  "spec_accepts (s\<lparr>left_matched := x\<rparr>) = spec_accepts s"
  "spec_accepts (s\<lparr>right_matched := y\<rparr>) = spec_accepts s"
  by (auto simp: spec_accepts_def fun_eq_iff)

lemma join_inner_loop_eq:
  "join_inner_loop lt rt j rows (h, b, s) =
     (h \<or> (\<exists>i\<in>set rows. spec_accepts s lt rt i j),
      b @ map (\<lambda>i. (i, j)) (filter (\<lambda>i. spec_accepts s lt rt i j) rows),
      s\<lparr>left_matched :=
          mark_rows (\<lambda>i. i \<in> set rows \<and> spec_accepts s lt rt i j) (left_result_itr s) (left_matched s)\<rparr>)"
proof (induction rows arbitrary: h b s)
  case Nil
  then show ?case by simp
next
  case (Cons i rows)
  show ?case
  proof (cases "spec_accepts s lt rt i j")
    case False
    then have rej: "predicate_rejects s (snd (lt ! i)) (snd (rt ! j))"
      by (simp add: predicate_rejects_iff)
    have "(\<lambda>x. (x = i \<or> x \<in> set rows) \<and> spec_accepts s lt rt x j) = (\<lambda>x. x \<in> set rows \<and> spec_accepts s lt rt x j)"
      using False by auto
    with rej False show ?thesis by (simp add: Cons.IH)
  next
    case True
    then have nrej: "\<not> predicate_rejects s (snd (lt ! i)) (snd (rt ! j))"
      by (simp add: predicate_rejects_iff)
    have P: "(\<lambda>x. x = i \<or> x \<in> set rows \<and> spec_accepts s lt rt x j) = (\<lambda>x. (x = i \<or> x \<in> set rows) \<and> spec_accepts s lt rt x j)"
      using True by auto
    show ?thesis using nrej True
      by (simp add: Cons.IH RecordMatchedLeftRow_def set_bit_at_eq_mark_rows mark_rows_mark_rows P)
  qed
qed


lemma mark_rows_set_bit_at:
  "mark_rows P b (set_bit_at b i bits) = mark_rows (\<lambda>x. x = i \<or> P x) b bits"
  by (simp add: set_bit_at_eq_mark_rows mark_rows_mark_rows)

lemma join_outer_loop_eq:
  "join_outer_loop lt rt rows (b, s) =
     (b @ concat (map (\<lambda>j. map (\<lambda>i. (i, j)) (filter (\<lambda>i. spec_accepts s lt rt i j) (tile_rows lt))) rows),
      s\<lparr>left_matched :=
          mark_rows (\<lambda>i. i \<in> set (tile_rows lt) \<and> (\<exists>j\<in>set rows. spec_accepts s lt rt i j))
            (left_result_itr s) (left_matched s),
        right_matched :=
          mark_rows (\<lambda>j. j \<in> set rows \<and> (\<exists>i\<in>set (tile_rows lt). spec_accepts s lt rt i j))
            (length (right_result_tiles s) - 1) (right_matched s)\<rparr>)"
proof (induction rows arbitrary: b s)
  case Nil
  then show ?case by simp
next
  case (Cons j rows)
  let ?L = "tile_rows lt"
  let ?h = "\<exists>i\<in>set ?L. spec_accepts s lt rt i j"
  let ?s1 = "s\<lparr>left_matched :=
      mark_rows (\<lambda>i. i \<in> set ?L \<and> spec_accepts s lt rt i j) (left_result_itr s) (left_matched s)\<rparr>"
  have PL: "(\<lambda>x. (x \<in> set ?L \<and> spec_accepts s lt rt x j) \<or> x \<in> set ?L \<and> (\<exists>j\<in>set rows. spec_accepts s lt rt x j))
      = (\<lambda>i. i \<in> set ?L \<and> (\<exists>j\<in>set (j # rows). spec_accepts s lt rt i j))"
    by auto
  show ?case
  proof (cases ?h)
    case True
    have PR: "(\<lambda>x. x = j \<or> x \<in> set rows \<and> (\<exists>i\<in>set ?L. spec_accepts s lt rt i x))
      = (\<lambda>x. x \<in> set (j # rows) \<and> (\<exists>i\<in>set ?L. spec_accepts s lt rt i x))"
      using True by auto
    from True show ?thesis
      by (simp add: join_inner_loop_eq Cons.IH RecordMatchedRightRow_def mark_rows_mark_rows
          mark_rows_set_bit_at PL PR)
  next
    case False
    have PR: "(\<lambda>x. x \<in> set rows \<and> (\<exists>i\<in>set ?L. spec_accepts s lt rt i x))
      = (\<lambda>x. x \<in> set (j # rows) \<and> (\<exists>i\<in>set ?L. spec_accepts s lt rt i x))"
      using False by auto
    have nil: "filter (\<lambda>i. spec_accepts s lt rt i j) ?L = []"
      using False by (simp add: filter_empty_conv)
    from False show ?thesis
      by (simp add: join_inner_loop_eq Cons.IH mark_rows_mark_rows PL PR nil)
  qed
qed

text \<open>
  C3. The pairwise matcher, run on a left and a right tile, visits the row pairs with the
  right rows outermost. A pair on which the configured predicate evaluates to false
  leaves no trace. Every other pair (the predicate evaluates to true or to unknown, or no
  predicate is configured) is appended to the position lists and marks its left row in
  the bitset of the left tile at the cursor; a right row is marked in the bitset of the
  last buffered right tile exactly when some left row of the tile was accepted against
  it. Nothing else of the executor changes. The right-hand side is written with
  \<open>spec_accepts\<close>, the case distinction on the predicate and its result given above, and
  not with the test of the loops.
\<close>

theorem pairwise_matcher:
  "join_outer_loop lt rt (tile_rows rt) ([], s) =
     (join_matches s lt rt,
      s\<lparr>left_matched :=
          mark_rows (\<lambda>i. i \<in> set (tile_rows lt) \<and> (\<exists>j\<in>set (tile_rows rt). spec_accepts s lt rt i j))
            (left_result_itr s) (left_matched s),
        right_matched :=
          mark_rows (\<lambda>j. j \<in> set (tile_rows rt) \<and> (\<exists>i\<in>set (tile_rows lt). spec_accepts s lt rt i j))
            (length (right_result_tiles s) - 1) (right_matched s)\<rparr>)"
  by (simp add: join_outer_loop_eq join_matches_def)

section \<open>Reading the left buffer\<close>

lemma case_return_BuildOuterJoinOutput [simp]:
  "(case return_BuildOuterJoinOutput s of Fault f \<Rightarrow> F f | Return out s' \<Rightarrow> R out s' | Continue s' \<Rightarrow> C s')
     = R (fst (BuildOuterJoinOutput s)) (snd (BuildOuterJoinOutput s))"
  by (simp add: return_BuildOuterJoinOutput_def split: prod.splits)

lemma return_BuildOuterJoinOutput_eq:
  "return_BuildOuterJoinOutput s = Return (fst (BuildOuterJoinOutput s)) (snd (BuildOuterJoinOutput s))"
  by (simp add: return_BuildOuterJoinOutput_def split: prod.splits)

lemma old_pick_right_Continue:
  assumes "old_pick_right adv s1 = Continue s2"
  shows "right_result_tiles s2 \<noteq> []"
    and "left_result_tiles s2 = left_result_tiles s1"
    and "left_result_itr s2 = left_result_itr s1"
    and "left_child_done s2 = left_child_done s1"
    and "adv \<Longrightarrow> \<not> (left_child_done s1 \<and> left_result_tiles s1 = [])"
  using assms
  by (auto simp: old_pick_right_def return_BuildOuterJoinOutput_def BufferRightTile_def Let_def
      split: if_splits prod.splits option.splits)

lemma pick_left_cursor:
  assumes "pick_left s = Inr (adv, s1)"
  shows "adv \<or> left_result_itr s1 < length (left_result_tiles s1)"
    and "adv \<Longrightarrow> left_result_itr s1 = 0 \<and> left_child_done s1"
  using assms
  by (auto simp: pick_left_def BufferLeftTile_def Let_def
      split: if_splits prod.splits option.splits)

lemma Old_body_no_Out_Of_Range: "Old_DExecute_body s \<noteq> Fault Out_Of_Range"
proof
  assume a: "Old_DExecute_body s = Fault Out_Of_Range"
  then obtain adv s1 where pl: "pick_left s = Inr (adv, s1)"
    and r: "(case old_pick_right adv s1 of Continue s2 \<Rightarrow> old_join s2 | r \<Rightarrow> r) = Fault Out_Of_Range"
    by (auto simp: Old_DExecute_body_def return_BuildOuterJoinOutput_def pick_left_def Let_def
        split: if_splits sum.splits prod.splits option.splits)
  show False
  proof (cases "old_pick_right adv s1")
    case (Fault f)
    with r have "old_pick_right adv s1 = Fault Out_Of_Range" by simp
    then show False
      by (auto simp: old_pick_right_def return_BuildOuterJoinOutput_def Let_def
          split: if_splits prod.splits option.splits)
  next
    case (Return out s2)
    with r show False by simp
  next
    case (Continue s2)
    with r have oj: "old_join s2 = Fault Out_Of_Range" by simp
    note c = old_pick_right_Continue[OF Continue]
    note p = pick_left_cursor[OF pl]
    have "left_result_itr s2 < length (left_result_tiles s2)"
    proof (cases adv)
      case True
      with p(2) c(5) have "left_result_itr s1 = 0" "left_result_tiles s1 \<noteq> []" by auto
      with c show ?thesis by simp
    next
      case False
      with p(1) c show ?thesis by simp
    qed
    with c(1) oj show False by (simp add: old_join_def)
  qed
qed

lemma Old_DExecute_no_Out_Of_Range: "Old_DExecute s \<noteq> Inl Out_Of_Range"
proof (induction s rule: Old_DExecute.induct)
  case (1 s)
  show ?case
  proof (cases "Old_DExecute_body s")
    case (Fault f)
    with Old_body_no_Out_Of_Range[of s] show ?thesis by (subst Old_DExecute.simps) auto
  next
    case (Return out s')
    then show ?thesis by (subst Old_DExecute.simps) simp
  next
    case (Continue s')
    with 1 show ?thesis by (subst Old_DExecute.simps) simp
  qed
qed

lemma DExecute_empty_left:
  assumes "\<not> left_child_done s" "remaining_tiles (children0 s) = []" "left_result_tiles s = []"
  shows "DExecute s = Some (Inl Out_Of_Range)"
proof -
  from assms have "DExecute_body s = Fault Out_Of_Range"
    by (simp add: DExecute_body_def pick_left_def Execute_def)
  then show ?thesis by (subst DExecute.simps) simp
qed

lemma Old_DExecute_empty_left:
  assumes "\<not> left_child_done s" "remaining_tiles (children0 s) = []" "left_result_tiles s = []"
  shows "\<exists>s'. Old_DExecute s = Inr (BuildOuterJoinOutput s')"
proof -
  from assms have "\<exists>s'. Old_DExecute_body s = return_BuildOuterJoinOutput s'"
    by (auto simp: Old_DExecute_body_def pick_left_def Execute_def old_pick_right_def Let_def
         BufferRightTile_def return_BuildOuterJoinOutput_eq[symmetric] split: list.splits)
  then obtain s' where "Old_DExecute_body s = return_BuildOuterJoinOutput s'" ..
  then have "Old_DExecute s = Inr (BuildOuterJoinOutput s')"
    by (subst Old_DExecute.simps) (simp add: return_BuildOuterJoinOutput_def split: prod.splits)
  then show ?thesis ..
qed

text \<open>
  C10. \<open>DExecute\<close> reads \<open>left_result_tiles_[left_result_itr_]\<close> without looking at
  the size of the buffer: when the left child reports exhaustion on its first pull, with
  nothing buffered, the read of element 0 is outside the buffer. \<open>Old_DExecute\<close> on the
  same executor hands over to the outer-completion emitter instead, and from no executor
  at all does it read outside a buffer.
\<close>

theorem left_buffer_access_unguarded:
  assumes "\<not> left_child_done s" "remaining_tiles (children0 s) = []" "left_result_tiles s = []"
  shows "DExecute s = Some (Inl Out_Of_Range) \<and>
         (\<exists>s'. Old_DExecute s = Inr (BuildOuterJoinOutput s')) \<and>
         Old_DExecute t \<noteq> Inl Out_Of_Range"
  using DExecute_empty_left[OF assms] Old_DExecute_empty_left[OF assms]
    Old_DExecute_no_Out_Of_Range[of t] by simp

theorem left_buffer_access_unguarded_witness:
  "DExecute (fresh_executor (batch_source PLAN_NODE_TYPE_SEQSCAN (\<lambda>k. []))
       (batch_source PLAN_NODE_TYPE_INDEXSCAN (\<lambda>k. [[(True, [k, 10])]])) None JOIN_TYPE_INNER False)
     = Some (Inl Out_Of_Range) \<and>
   (\<exists>s'. Old_DExecute (fresh_executor (batch_source PLAN_NODE_TYPE_SEQSCAN (\<lambda>k. []))
       (batch_source PLAN_NODE_TYPE_INDEXSCAN (\<lambda>k. [[(True, [k, 10])]])) None JOIN_TYPE_INNER False)
     = Inr (BuildOuterJoinOutput s'))"
  using left_buffer_access_unguarded[of "fresh_executor (batch_source PLAN_NODE_TYPE_SEQSCAN (\<lambda>k. []))
       (batch_source PLAN_NODE_TYPE_INDEXSCAN (\<lambda>k. [[(True, [k, 10])]])) None JOIN_TYPE_INNER False"]
  by (simp add: fresh_executor_def batch_source_def remaining_tiles_def)

section \<open>The predicate in the probe loop\<close>

lemma pick_left_unchanged:
  assumes "pick_left s = Inr (adv, s1)"
  shows "predicate s1 = predicate s" "children1 s1 = children1 s"
    "right_result_tiles s1 = right_result_tiles s" "right_child_done s1 = right_child_done s"
    "asserts_enabled s1 = asserts_enabled s" "join_type s1 = join_type s"
  using assms
  by (auto simp: pick_left_def BufferLeftTile_def Let_def
      split: if_splits prod.splits option.splits)

lemma probe_left_row_no_predicate:
  "predicate s = None \<Longrightarrow> probe_left_row lt row s = Fault Null_Dereference"
  "predicate s = Some p \<Longrightarrow> GetLeft p = None \<Longrightarrow> probe_left_row lt row s = Fault Null_Dereference"
  "predicate s = Some p \<Longrightarrow> GetLeft p = Some (ConstantValueExpression v) \<Longrightarrow>
     probe_left_row lt row s = Fault Bad_Downcast"
  by (simp_all add: probe_left_row_def)

lemma DExecute_body_first_row_fault:
  assumes "\<not> (left_child_done s \<and> right_child_done s)"
    and "pick_left s = Inr (adv, s1)"
    and "left_result_itr s1 < length (left_result_tiles s1)"
    and "tile_rows (left_result_tiles s1 ! left_result_itr s1) = row # rows"
    and "probe_left_row (left_result_tiles s1 ! left_result_itr s1) row s1 = Fault f"
  shows "DExecute s = Some (Inl f)"
proof -
  from assms have "DExecute_body s = Fault f"
    by (auto simp: DExecute_body_def Let_def)
  then show ?thesis by (subst DExecute.simps) simp
qed

lemma join_matches_no_predicate:
  "predicate s = None \<Longrightarrow>
     join_matches s lt rt = concat (map (\<lambda>j. map (\<lambda>i. (i, j)) (tile_rows lt)) (tile_rows rt))"
  by (simp add: join_matches_def spec_accepts_def)

text \<open>
  C9. When an iteration of \<open>DExecute\<close> enters the loop over the rows of the picked left
  tile (the tile has a visible row), the join predicate is dereferenced and its left
  operand is cast to a tuple-value expression before anything else: with no predicate, or
  a predicate without left operand, the call is a null dereference, and with a left
  operand of another kind a bad cast. The pairing phase, on its side, accepts every row
  pair when no predicate is configured.
\<close>

theorem predicate_dereferenced_unconditionally:
  assumes "\<not> (left_child_done s \<and> right_child_done s)"
    and "pick_left s = Inr (adv, s1)"
    and "left_result_itr s1 < length (left_result_tiles s1)"
    and "tile_rows (left_result_tiles s1 ! left_result_itr s1) \<noteq> []"
  shows "(predicate s = None \<longrightarrow> DExecute s = Some (Inl Null_Dereference)) \<and>
         (\<forall>p. predicate s = Some p \<and> GetLeft p = None \<longrightarrow>
              DExecute s = Some (Inl Null_Dereference)) \<and>
         (\<forall>p v. predicate s = Some p \<and> GetLeft p = Some (ConstantValueExpression v) \<longrightarrow>
              DExecute s = Some (Inl Bad_Downcast)) \<and>
         (predicate s = None \<longrightarrow>
            (\<forall>lt rt. fst (join_outer_loop lt rt (tile_rows rt) ([], s)) =
               concat (map (\<lambda>j. map (\<lambda>i. (i, j)) (tile_rows lt)) (tile_rows rt))))"
proof -
  from assms(4) obtain row rows where
    rows: "tile_rows (left_result_tiles s1 ! left_result_itr s1) = row # rows"
    by (cases "tile_rows (left_result_tiles s1 ! left_result_itr s1)") auto
  note p = pick_left_unchanged(1)[OF assms(2)]
  note f = DExecute_body_first_row_fault[OF assms(1-3) rows]
  have a: "predicate s = None \<Longrightarrow> DExecute s = Some (Inl Null_Dereference)"
    using f probe_left_row_no_predicate(1) p by simp
  have b: "predicate s = Some q \<Longrightarrow> GetLeft q = None \<Longrightarrow> DExecute s = Some (Inl Null_Dereference)" for q
    using f probe_left_row_no_predicate(2) p by simp
  have c: "predicate s = Some q \<Longrightarrow> GetLeft q = Some (ConstantValueExpression v) \<Longrightarrow>
      DExecute s = Some (Inl Bad_Downcast)" for q v
    using f probe_left_row_no_predicate(3) p by simp
  have d: "predicate s = None \<Longrightarrow> fst (join_outer_loop lt rt (tile_rows rt) ([], s)) =
               concat (map (\<lambda>j. map (\<lambda>i. (i, j)) (tile_rows lt)) (tile_rows rt))" for lt rt
    by (simp add: join_outer_loop_eq join_matches_no_predicate[unfolded join_matches_def])
  from a b c d show ?thesis by blast
qed

definition no_predicate_executor :: executor where
  "no_predicate_executor =
     fresh_executor (batch_source PLAN_NODE_TYPE_SEQSCAN (\<lambda>k. [[(True, [5])]]))
       (batch_source PLAN_NODE_TYPE_INDEXSCAN (\<lambda>k. [[(True, [k, 10])]])) None JOIN_TYPE_INNER False"

theorem predicate_dereferenced_unconditionally_witness:
  "DExecute no_predicate_executor = Some (Inl Null_Dereference) \<and>
   fst (join_outer_loop [(True, [5])] [(True, [5, 10])] (tile_rows [(True, [5, 10])])
          ([], no_predicate_executor)) = [(0, 0)]"
proof -
  let ?s1 = "(BufferLeftTile [(True, [5])]
      (no_predicate_executor\<lparr>children0 := (children0 no_predicate_executor)\<lparr>scan_pending := Some []\<rparr>\<rparr>))
      \<lparr>left_result_itr := 0\<rparr>"
  have pl: "pick_left no_predicate_executor = Inr (False, ?s1)"
    by (simp add: pick_left_def no_predicate_executor_def fresh_executor_def batch_source_def
        Execute_def remaining_tiles_def BufferLeftTile_def Let_def)
  have nd: "\<not> (left_child_done no_predicate_executor \<and> right_child_done no_predicate_executor)"
    by (simp add: no_predicate_executor_def fresh_executor_def)
  have inb: "left_result_itr ?s1 < length (left_result_tiles ?s1)"
    by (simp add: BufferLeftTile_def no_predicate_executor_def fresh_executor_def)
  have rows: "tile_rows (left_result_tiles ?s1 ! left_result_itr ?s1) \<noteq> []"
    by (simp add: BufferLeftTile_def no_predicate_executor_def fresh_executor_def tile_rows_def)
  have np: "predicate no_predicate_executor = None"
    by (simp add: no_predicate_executor_def fresh_executor_def)
  note th = predicate_dereferenced_unconditionally[OF nd pl inb rows]
  from th np have A: "DExecute no_predicate_executor = Some (Inl Null_Dereference)"
    by blast
  from th np have "fst (join_outer_loop [(True, [5])] [(True, [5, 10])] (tile_rows [(True, [5, 10])])
          ([], no_predicate_executor)) =
      concat (map (\<lambda>j. map (\<lambda>i. (i, j)) (tile_rows [(True, [5])])) (tile_rows [(True, [5, 10])]))"
    by blast
  also have "\<dots> = [(0, 0)]" by (simp add: tile_rows_def)
  finally show ?thesis using A by simp
qed

section \<open>Calls after both children are exhausted\<close>

text \<open>
  The rows that an outer-completion batch pads, each with its side (\<open>True\<close> is left) and
  the position of its tile in the buffer; the outputs of successive successful calls.
\<close>

fun padded_rows :: "join_output \<Rightarrow> (bool \<times> nat \<times> oid) list" where
  "padded_rows (Left_Padded k rows) = map (\<lambda>r. (True, k, r)) rows"
| "padded_rows (Right_Padded k rows) = map (\<lambda>r. (False, k, r)) rows"
| "padded_rows (Joined_Tile l r b) = []"

fun successive_calls :: "nat \<Rightarrow> executor \<Rightarrow> join_output list" where
  "successive_calls 0 s = []"
| "successive_calls (Suc n) s =
     (case DExecute s of
        Some (Inr (Some out, s')) \<Rightarrow> out # successive_calls n s'
      | _ \<Rightarrow> [])"

fun from_cursor :: "executor \<Rightarrow> join_output \<Rightarrow> bool" where
  "from_cursor s (Left_Padded k rows) \<longleftrightarrow>
     left_matching_idx s \<le> k \<and> k < length (left_batches s) \<and>
     rows = unmatched_rows (left_batches s ! k) \<and> rows \<noteq> []"
| "from_cursor s (Right_Padded k rows) \<longleftrightarrow>
     right_matching_idx s \<le> k \<and> k < length (right_batches s) \<and>
     rows = unmatched_rows (right_batches s ! k) \<and> rows \<noteq> []"
| "from_cursor s (Joined_Tile l r b) \<longleftrightarrow> False"

lemma batches_cursor_update [simp]:
  "left_batches (s\<lparr>left_matching_idx := x\<rparr>) = left_batches s"
  "right_batches (s\<lparr>left_matching_idx := x\<rparr>) = right_batches s"
  "left_batches (s\<lparr>right_matching_idx := x\<rparr>) = left_batches s"
  "right_batches (s\<lparr>right_matching_idx := x\<rparr>) = right_batches s"
  by (simp_all add: left_batches_def right_batches_def)

lemma first_unmatched_Some:
  "first_unmatched batches ks = Some (k, rows) \<Longrightarrow>
     k \<in> set ks \<and> rows = unmatched_rows (batches ! k) \<and> rows \<noteq> []"
  by (induction ks) (auto split: if_splits)

lemma distinct_unmatched_rows: "distinct (unmatched_rows tb)"
  by (simp add: unmatched_rows_def tile_rows_def)

lemma BuildLeftJoinOutput_None: "BuildLeftJoinOutput s = (None, s') \<Longrightarrow> s' = s"
  by (auto simp: BuildLeftJoinOutput_def split: option.splits)

lemma BuildRightJoinOutput_None: "BuildRightJoinOutput s = (None, s') \<Longrightarrow> s' = s"
  by (auto simp: BuildRightJoinOutput_def split: option.splits)

lemma BuildLeftJoinOutput_Some:
  assumes "BuildLeftJoinOutput s = (Some out, s')"
  shows "\<exists>k. out = Left_Padded k (unmatched_rows (left_batches s ! k)) \<and>
           left_matching_idx s \<le> k \<and> k < length (left_batches s) \<and>
           unmatched_rows (left_batches s ! k) \<noteq> [] \<and> s' = s\<lparr>left_matching_idx := Suc k\<rparr>"
  using assms
  by (auto simp: BuildLeftJoinOutput_def split: option.splits dest!: first_unmatched_Some)

lemma BuildRightJoinOutput_Some:
  assumes "BuildRightJoinOutput s = (Some out, s')"
  shows "\<exists>k. out = Right_Padded k (unmatched_rows (right_batches s ! k)) \<and>
           right_matching_idx s \<le> k \<and> k < length (right_batches s) \<and>
           unmatched_rows (right_batches s ! k) \<noteq> [] \<and> s' = s\<lparr>right_matching_idx := Suc k\<rparr>"
  using assms
  by (auto simp: BuildRightJoinOutput_def split: option.splits dest!: first_unmatched_Some)

lemma BuildOuterJoinOutput_Some:
  assumes "BuildOuterJoinOutput s = (Some out, s')"
  shows "(\<exists>k. out = Left_Padded k (unmatched_rows (left_batches s ! k)) \<and>
           left_matching_idx s \<le> k \<and> k < length (left_batches s) \<and>
           unmatched_rows (left_batches s ! k) \<noteq> [] \<and> s' = s\<lparr>left_matching_idx := Suc k\<rparr>) \<or>
         (\<exists>k. out = Right_Padded k (unmatched_rows (right_batches s ! k)) \<and>
           right_matching_idx s \<le> k \<and> k < length (right_batches s) \<and>
           unmatched_rows (right_batches s ! k) \<noteq> [] \<and> s' = s\<lparr>right_matching_idx := Suc k\<rparr>)"
proof (cases "join_type s")
  case JOIN_TYPE_INNER
  with assms show ?thesis by (simp add: BuildOuterJoinOutput_def)
next
  case JOIN_TYPE_LEFT
  with assms show ?thesis by (auto simp: BuildOuterJoinOutput_def dest: BuildLeftJoinOutput_Some)
next
  case JOIN_TYPE_RIGHT
  with assms show ?thesis by (auto simp: BuildOuterJoinOutput_def dest: BuildRightJoinOutput_Some)
next
  case JOIN_TYPE_OUTER
  show ?thesis
  proof (cases "BuildLeftJoinOutput s")
    case (Pair o1 s1)
    show ?thesis
    proof (cases o1)
      case None
      with Pair have "s1 = s" by (auto dest: BuildLeftJoinOutput_None)
      with None Pair JOIN_TYPE_OUTER assms have "BuildRightJoinOutput s = (Some out, s')"
        by (simp add: BuildOuterJoinOutput_def)
      then show ?thesis by (auto dest: BuildRightJoinOutput_Some)
    next
      case (Some a)
      with Pair JOIN_TYPE_OUTER assms have "BuildLeftJoinOutput s = (Some out, s')"
        by (simp add: BuildOuterJoinOutput_def)
      then show ?thesis by (auto dest: BuildLeftJoinOutput_Some)
    qed
  qed
qed

lemma BuildOuterJoinOutput_flags:
  "left_child_done (snd (BuildOuterJoinOutput s)) = left_child_done s \<and>
   right_child_done (snd (BuildOuterJoinOutput s)) = right_child_done s"
proof (cases "BuildOuterJoinOutput s")
  case (Pair out s')
  show ?thesis
  proof (cases out)
    case None
    with Pair have "s' = s"
      by (auto simp: BuildOuterJoinOutput_def split: join_type.splits prod.splits option.splits
          dest: BuildLeftJoinOutput_None BuildRightJoinOutput_None)
    with Pair show ?thesis by simp
  next
    case (Some a)
    with Pair BuildOuterJoinOutput_Some[of s a s'] show ?thesis by auto
  qed
qed

lemma DExecute_both_done:
  assumes "left_child_done s" "right_child_done s"
  shows "DExecute s = Some (Inr (BuildOuterJoinOutput s))"
proof -
  from assms have "DExecute_body s = return_BuildOuterJoinOutput s"
    by (simp add: DExecute_body_def)
  then show ?thesis
    by (subst DExecute.simps) (simp add: return_BuildOuterJoinOutput_def split: prod.splits)
qed

lemma completion_calls:
  assumes "left_child_done s" "right_child_done s"
  shows "(\<forall>out\<in>set (successive_calls n s). from_cursor s out) \<and>
         distinct (concat (map padded_rows (successive_calls n s)))"
  using assms
proof (induction n arbitrary: s)
  case 0
  then show ?case by simp
next
  case (Suc n)
  note d = DExecute_both_done[OF Suc.prems]
  show ?case
  proof (cases "BuildOuterJoinOutput s")
    case (Pair o1 s')
    show ?thesis
    proof (cases o1)
      case None
      with Pair d show ?thesis by simp
    next
      case (Some out)
      with Pair d have sc: "successive_calls (Suc n) s = out # successive_calls n s'" by simp
      from BuildOuterJoinOutput_flags[of s] Pair Suc.prems
      have fl: "left_child_done s'" "right_child_done s'" by simp_all
      note ih = Suc.IH[OF fl]
      from Pair Some have bo: "BuildOuterJoinOutput s = (Some out, s')" by simp
      from BuildOuterJoinOutput_Some[OF bo] show ?thesis
      proof (elim disjE exE conjE)
        fix k
        assume out: "out = Left_Padded k (unmatched_rows (left_batches s ! k))"
          and k: "left_matching_idx s \<le> k" "k < length (left_batches s)"
          and ne: "unmatched_rows (left_batches s ! k) \<noteq> []"
          and s': "s' = s\<lparr>left_matching_idx := Suc k\<rparr>"
        have lb: "left_batches s' = left_batches s" "right_batches s' = right_batches s"
          by (simp_all add: s' left_batches_def right_batches_def)
        have rest: "from_cursor s x \<and> (\<forall>r. (True, k, r) \<notin> set (padded_rows x))"
          if "x \<in> set (successive_calls n s')" for x
        proof -
          from ih that have fc: "from_cursor s' x" by blast
          then show ?thesis using k unfolding s' by (cases x) auto
        qed
        have "from_cursor s out" using out k ne by simp
        moreover have "distinct (padded_rows out)"
          by (simp add: out distinct_map distinct_unmatched_rows inj_on_def)
        moreover have "set (padded_rows out) \<inter> set (concat (map padded_rows (successive_calls n s'))) = {}"
          using rest by (auto simp: out)
        ultimately show ?thesis using rest ih unfolding sc by simp
      next
        fix k
        assume out: "out = Right_Padded k (unmatched_rows (right_batches s ! k))"
          and k: "right_matching_idx s \<le> k" "k < length (right_batches s)"
          and ne: "unmatched_rows (right_batches s ! k) \<noteq> []"
          and s': "s' = s\<lparr>right_matching_idx := Suc k\<rparr>"
        have lb: "left_batches s' = left_batches s" "right_batches s' = right_batches s"
          by (simp_all add: s' left_batches_def right_batches_def)
        have rest: "from_cursor s x \<and> (\<forall>r. (False, k, r) \<notin> set (padded_rows x))"
          if "x \<in> set (successive_calls n s')" for x
        proof -
          from ih that have fc: "from_cursor s' x" by blast
          then show ?thesis using k unfolding s' by (cases x) auto
        qed
        have "from_cursor s out" using out k ne by simp
        moreover have "distinct (padded_rows out)"
          by (simp add: out distinct_map distinct_unmatched_rows inj_on_def)
        moreover have "set (padded_rows out) \<inter> set (concat (map padded_rows (successive_calls n s'))) = {}"
          using rest by (auto simp: out)
        ultimately show ?thesis using rest ih unfolding sc by simp
      qed
    qed
  qed
qed


text \<open>
  Once both exhaustion flags are set, a call of \<open>DExecute\<close> is the call of the
  outer-completion emitter and nothing else, so it cannot fault or fail afresh, and the
  flags stay set, so the same holds for every later call. Every batch such calls return
  pads the unmatched rows of one buffered tile at or after the emitter's cursor, is not
  empty, and no position of the buffers is padded twice over any number of calls. This
  says nothing about a row of a child that the loop has buffered at two positions.
\<close>

lemma exhausted_calls_delegate:
  assumes "left_child_done s" "right_child_done s"
  shows "DExecute s = Some (Inr (BuildOuterJoinOutput s)) \<and>
         left_child_done (snd (BuildOuterJoinOutput s)) \<and>
         right_child_done (snd (BuildOuterJoinOutput s)) \<and>
         (\<forall>out\<in>set (successive_calls n s). from_cursor s out) \<and>
         distinct (concat (map padded_rows (successive_calls n s)))"
  using DExecute_both_done[OF assms] BuildOuterJoinOutput_flags[of s] completion_calls[OF assms, of n]
    assms by simp

section \<open>Exhaustion of the right child in the lookup loop\<close>

declare lookup_right.simps [simp del]

definition buffer_right_tiles :: "logical_tile list \<Rightarrow> executor \<Rightarrow> executor" where
  "buffer_right_tiles ts s =
     s\<lparr>right_result_tiles := right_result_tiles s @ ts,
       right_matched := right_matched s @ map (\<lambda>t. replicate (length t) False) ts\<rparr>"

lemma lookup_right_left_pending:
  assumes "\<not> left_child_done s" "remaining_tiles (children1 s) = ts"
  shows "lookup_right s =
     (if GetPlanNodeType (children1 s) = PLAN_NODE_TYPE_INDEXSCAN
      then Continue (buffer_right_tiles ts (s\<lparr>children1 := (children1 s)\<lparr>scan_pending := None\<rparr>\<rparr>))
      else Fault Bad_Downcast)"
  using assms
proof (induction ts arbitrary: s)
  case Nil
  then have "Execute (children1 s) = (None, (children1 s)\<lparr>scan_pending := Some []\<rparr>)"
    by (simp add: Execute_def)
  with Nil show ?case
    by (subst lookup_right.simps) (simp add: ResetState_def buffer_right_tiles_def)
next
  case (Cons t ts)
  let ?c = "(children1 s)\<lparr>scan_pending := Some ts\<rparr>"
  let ?s1 = "BufferRightTile t (s\<lparr>children1 := ?c\<rparr>)"
  from Cons.prems have ex: "Execute (children1 s) = (Some t, ?c)"
    by (simp add: Execute_def)
  have nd: "\<not> left_child_done ?s1" using Cons.prems by (simp add: BufferRightTile_def)
  have rem: "remaining_tiles (children1 ?s1) = ts"
    by (simp add: BufferRightTile_def remaining_tiles_def)
  have "lookup_right s = lookup_right ?s1"
    using ex nd by (subst lookup_right.simps) (simp add: Let_def)
  also note Cons.IH[OF nd rem]
  finally show ?case
    by (simp add: BufferRightTile_def buffer_right_tiles_def)
qed

lemma lookup_right_left_done:
  assumes "left_child_done s" "left_result_tiles s \<noteq> []" "remaining_tiles (children1 s) = ts"
  shows "lookup_right s =
     Continue (buffer_right_tiles ts
        (s\<lparr>children1 := (children1 s)\<lparr>scan_pending := Some []\<rparr>, right_child_done := True\<rparr>))"
  using assms
proof (induction ts arbitrary: s)
  case Nil
  then have "Execute (children1 s) = (None, (children1 s)\<lparr>scan_pending := Some []\<rparr>)"
    by (simp add: Execute_def)
  with Nil show ?case
    by (subst lookup_right.simps) (simp add: buffer_right_tiles_def)
next
  case (Cons t ts)
  let ?c = "(children1 s)\<lparr>scan_pending := Some ts\<rparr>"
  let ?s1 = "BufferRightTile t (s\<lparr>children1 := ?c\<rparr>)"
  from Cons.prems have ex: "Execute (children1 s) = (Some t, ?c)"
    by (simp add: Execute_def)
  have nd: "left_child_done ?s1" "left_result_tiles ?s1 \<noteq> []"
    using Cons.prems by (simp_all add: BufferRightTile_def)
  have rem: "remaining_tiles (children1 ?s1) = ts"
    by (simp add: BufferRightTile_def remaining_tiles_def)
  have "lookup_right s = lookup_right ?s1"
    using ex nd by (subst lookup_right.simps) (simp add: Let_def)
  also note Cons.IH[OF nd rem]
  finally show ?case
    by (simp add: BufferRightTile_def buffer_right_tiles_def)
qed

text \<open>
  C5, as the code has it. When the right child reports exhaustion in the lookup loop of
  \<open>DExecute\<close>, what happens depends on \<open>left_child_done_\<close> alone. While the left child
  has not been marked exhausted, an index scan is reset, so that its next pull starts a
  fresh scan under the bound pushed by then, and \<open>right_child_done_\<close> is left as it was.
  Once the left child is marked exhausted, \<open>right_child_done_\<close> is set and the right
  child is not reset. In both cases every batch the right child produced has been
  buffered.
\<close>

theorem right_exhaustion_resets_or_marks_done:
  "(\<not> left_child_done s \<and> GetPlanNodeType (children1 s) = PLAN_NODE_TYPE_INDEXSCAN \<longrightarrow>
      (\<exists>s'. lookup_right s = Continue s' \<and> scan_pending (children1 s') = None \<and>
            right_child_done s' = right_child_done s \<and>
            right_result_tiles s' = right_result_tiles s @ remaining_tiles (children1 s))) \<and>
   (left_child_done s \<and> left_result_tiles s \<noteq> [] \<longrightarrow>
      (\<exists>s'. lookup_right s = Continue s' \<and> scan_pending (children1 s') = Some [] \<and>
            right_child_done s' \<and>
            right_result_tiles s' = right_result_tiles s @ remaining_tiles (children1 s)))"
  by (simp add: lookup_right_left_pending[OF _ refl] lookup_right_left_done[OF _ _ refl]
      buffer_right_tiles_def)


definition key_equality :: join_predicate where
  "key_equality =
     \<lparr>GetLeft = Some (TupleValueExpression 0),
      Evaluate = (\<lambda>l r. if l ! 0 = r ! 0 then Is_True else Is_False)\<rparr>"

definition index_by_key :: child_executor where
  "index_by_key = batch_source PLAN_NODE_TYPE_INDEXSCAN (\<lambda>k. [[(True, [k, 10])]])"

definition two_key_executor :: executor where
  "two_key_executor =
     fresh_executor (batch_source PLAN_NODE_TYPE_SEQSCAN (\<lambda>k. [[(True, [5]), (True, [7])]]))
       index_by_key (Some key_equality) JOIN_TYPE_INNER False"

fun state_after :: "nat \<Rightarrow> executor \<Rightarrow> executor option" where
  "state_after 0 s = Some s"
| "state_after (Suc n) s =
     (case DExecute s of
        Some (Inr (Some out, s')) \<Rightarrow> state_after n s'
      | _ \<Rightarrow> None)"

definition second_call_executor :: executor where
  "second_call_executor =
     \<lparr>children0 = (batch_source PLAN_NODE_TYPE_SEQSCAN (\<lambda>k. [[(True, [5]), (True, [7])]]))
         \<lparr>scan_pending := Some []\<rparr>,
      children1 = index_by_key\<lparr>key_value := 7\<rparr>,
      predicate = Some key_equality, join_type = JOIN_TYPE_INNER,
      left_result_tiles = [[(True, [5]), (True, [7])]],
      right_result_tiles = [[(True, [5, 10])], [(True, [7, 10])]],
      left_result_itr = 0, left_child_done = True, right_child_done = False,
      left_matched = [[False, True]], right_matched = [[False], [True]],
      left_matching_idx = 0, right_matching_idx = 0, asserts_enabled = False\<rparr>"

fun continued :: "iteration \<Rightarrow> executor option" where
  "continued (Continue s) = Some s"
| "continued (Return out s) = None"
| "continued (Fault f) = None"

theorem right_exhaustion_resets_or_marks_done_witness:
  "(\<exists>s'. lookup_right (second_call_executor\<lparr>left_child_done := False\<rparr>) = Continue s' \<and>
         scan_pending (children1 s') = None \<and> \<not> right_child_done s' \<and>
         right_result_tiles s' = [[(True, [5, 10])], [(True, [7, 10])], [(True, [7, 10])]]) \<and>
   (\<exists>s'. lookup_right second_call_executor = Continue s' \<and>
         scan_pending (children1 s') = Some [] \<and> right_child_done s' \<and>
         right_result_tiles s' = [[(True, [5, 10])], [(True, [7, 10])], [(True, [7, 10])]])"
  using right_exhaustion_resets_or_marks_done[of "second_call_executor\<lparr>left_child_done := False\<rparr>"]
    right_exhaustion_resets_or_marks_done[of second_call_executor]
  by (simp add: second_call_executor_def index_by_key_def batch_source_def remaining_tiles_def)

text \<open>
  \<open>second_call_executor\<close> is the executor in the second call on \<open>two_key_executor\<close>,
  when the left child has just reported exhaustion and the only left tile, with the keys
  5 and 7, is picked again.
\<close>

lemma second_call_executor_reached:
  "map_option
     (\<lambda>s. case pick_left s of
             Inr (adv, s') \<Rightarrow>
               Some (adv, left_result_tiles s', right_result_tiles s', left_result_itr s',
                 left_child_done s', right_child_done s', left_matched s', right_matched s',
                 key_value (children1 s'), scan_pending (children1 s'), scan_pending (children0 s'))
           | Inl f \<Rightarrow> None)
     (state_after 1 two_key_executor) =
   Some (Some (True, left_result_tiles second_call_executor,
     right_result_tiles second_call_executor, left_result_itr second_call_executor,
     left_child_done second_call_executor, right_child_done second_call_executor,
     left_matched second_call_executor, right_matched second_call_executor,
     key_value (children1 second_call_executor), scan_pending (children1 second_call_executor),
     scan_pending (children0 second_call_executor)))"
  by code_simp

text \<open>
  The claim C5 fails where the left child is exhausted and rows of the picked left tile
  remain. In the second call on \<open>two_key_executor\<close> the rows with the keys 5 and 7 are
  probed again. When the right child reports exhaustion for the bound 5, the row with the
  key 7 is still to be probed; the right child is not reset and \<open>right_child_done_\<close> is
  set, so that the probe of the key 7 finds the child exhausted and buffers nothing,
  although the child has a batch for that key.
\<close>

theorem reset_while_rows_remain_counterexample:
  "map_option (\<lambda>s. (right_result_tiles s, right_child_done s, scan_pending (children1 s)))
     (continued (probe_left_row [(True, [5]), (True, [7])] 0 second_call_executor)) =
     Some ([[(True, [5, 10])], [(True, [7, 10])], [(True, [5, 10])]], True, Some []) \<and>
   map_option right_result_tiles
     (continued (probe_rows [(True, [5]), (True, [7])] [0, 1] second_call_executor)) =
     Some [[(True, [5, 10])], [(True, [7, 10])], [(True, [5, 10])]] \<and>
   scan_result (children1 second_call_executor) 7 = [[(True, [7, 10])]] \<and>
   map_option (\<lambda>s. (right_result_tiles s, right_child_done s, scan_pending (children1 s)))
     (state_after 2 two_key_executor) =
     Some ([[(True, [5, 10])], [(True, [7, 10])], [(True, [5, 10])]], True, Some [])"
  by code_simp

section \<open>Pushing the key value into the right child\<close>
















section \<open>The pairings of a run of the materializing loop\<close>

declare Old_DExecute.simps [simp del]

lemma BuildOuterJoinOutput_cursors:
  "\<exists>a b. snd (BuildOuterJoinOutput s) = s\<lparr>left_matching_idx := a, right_matching_idx := b\<rparr>"
proof (cases "BuildOuterJoinOutput s")
  case (Pair out s')
  show ?thesis
  proof (cases out)
    case None
    with Pair have "s' = s"
      by (auto simp: BuildOuterJoinOutput_def split: join_type.splits prod.splits option.splits
          dest: BuildLeftJoinOutput_None BuildRightJoinOutput_None)
    then have "s' = s\<lparr>left_matching_idx := left_matching_idx s, right_matching_idx := right_matching_idx s\<rparr>"
      by simp
    with Pair show ?thesis by (metis snd_conv)
  next
    case (Some a)
    with Pair BuildOuterJoinOutput_Some[of s a s'] 
    have "s' = s\<lparr>left_matching_idx := left_matching_idx s', right_matching_idx := right_matching_idx s'\<rparr>"
      by auto
    with Pair show ?thesis by (metis snd_conv)
  qed
qed

lemma BuildOuterJoinOutput_not_Joined:
  "fst (BuildOuterJoinOutput s) \<noteq> Some (Joined_Tile l r b)"
proof
  assume "fst (BuildOuterJoinOutput s) = Some (Joined_Tile l r b)"
  then have "BuildOuterJoinOutput s = (Some (Joined_Tile l r b), snd (BuildOuterJoinOutput s))"
    by (metis prod.collapse)
  from BuildOuterJoinOutput_Some[OF this] show False by auto
qed

definition run_measure :: "executor \<Rightarrow> nat \<times> nat \<times> nat" where
  "run_measure s =
     (if left_child_done s \<and> right_child_done s then 0 else 1,
      fst (old_measure s), snd (old_measure s))"

lemma old_measure_cursors [simp]:
  "old_measure (s\<lparr>left_matching_idx := a, right_matching_idx := b\<rparr>) = old_measure s"
  by (simp add: old_measure_def)

lemma old_join_Return: "old_join s = Return out s' \<Longrightarrow> same_control s s'"
  by (auto simp: old_join_def split: if_splits dest: build_join_tile_Return)

lemma old_join_cursor: "old_join s = Return out s' \<or> old_join s = Continue s' \<Longrightarrow>
    left_result_itr s < length (left_result_tiles s)"
  by (auto simp: old_join_def split: if_splits)

lemma Old_body_not_done:
  "\<not> (left_child_done s \<and> right_child_done s) \<Longrightarrow>
     Old_DExecute_body s =
       (case pick_left s of
          Inl f \<Rightarrow> Fault f
        | Inr (advance_right_child, s1) \<Rightarrow>
            (case old_pick_right advance_right_child s1 of
               Continue s2 \<Rightarrow> old_join s2
             | r \<Rightarrow> r))"
  by (auto simp: Old_DExecute_body_def)

lemma Old_body_cases:
  assumes "\<not> (left_child_done s \<and> right_child_done s)"
  shows "(\<exists>f. Old_DExecute_body s = Fault f) \<or>
         (\<exists>adv s1 s2 s'. pick_left s = Inr (adv, s1) \<and> old_pick_right adv s1 = Continue s2 \<and>
             same_control s2 s' \<and> left_result_itr s2 < length (left_result_tiles s2) \<and>
             (Old_DExecute_body s = Continue s' \<or> (\<exists>out. Old_DExecute_body s = Return out s'))) \<or>
         (\<exists>adv s1 s2. pick_left s = Inr (adv, s1) \<and>
             old_pick_right adv s1 = return_BuildOuterJoinOutput s2 \<and>
             Old_DExecute_body s = return_BuildOuterJoinOutput s2 \<and>
             (s2 = s1 \<and> right_child_done s1 \<and> right_result_tiles s1 = [] \<or>
              (\<exists>c. s2 = s1\<lparr>children1 := c, right_child_done := True\<rparr> \<and>
                   Execute (children1 s1) = (None, c)) \<or>
              (\<exists>c t. s2 = BufferRightTile t (s1\<lparr>children1 := c\<rparr>) \<and>
                   Execute (children1 s1) = (Some t, c) \<and> left_child_done s1 \<and>
                   left_result_tiles s1 = [])))"
proof (cases "pick_left s")
  case (Inl f)
  with assms show ?thesis by (simp add: Old_body_not_done)
next
  case (Inr p)
  obtain adv s1 where p: "p = (adv, s1)" by (cases p)
  with Inr have pl: "pick_left s = Inr (adv, s1)" by simp
  have body: "Old_DExecute_body s = (case old_pick_right adv s1 of Continue s2 \<Rightarrow> old_join s2 | r \<Rightarrow> r)"
    using assms pl by (simp add: Old_body_not_done)
  show ?thesis
  proof (cases "old_pick_right adv s1")
    case (Fault f)
    with body show ?thesis by simp
  next
    case (Continue s2)
    with body have b: "Old_DExecute_body s = old_join s2" by simp
    show ?thesis
    proof (cases "old_join s2")
      case (Fault f)
      with b show ?thesis by simp
    next
      case (Return out s')
      with b pl Continue old_join_Return[OF Return] old_join_cursor[of s2 out s']
      show ?thesis by auto
    next
      case c2: (Continue s')
      with b pl Continue old_join_Continue[OF c2] old_join_cursor[of s2 _ s']
      show ?thesis by auto
    qed
  next
    case (Return out s')
    with body have b: "Old_DExecute_body s = old_pick_right adv s1" by simp
    from Return have "(s' = snd (BuildOuterJoinOutput s1) \<and> old_pick_right adv s1 = return_BuildOuterJoinOutput s1 \<and>
           right_child_done s1 \<and> right_result_tiles s1 = []) \<or>
       (\<exists>c. old_pick_right adv s1 = return_BuildOuterJoinOutput (s1\<lparr>children1 := c, right_child_done := True\<rparr>) \<and>
            Execute (children1 s1) = (None, c)) \<or>
       (\<exists>c t. old_pick_right adv s1 = return_BuildOuterJoinOutput (BufferRightTile t (s1\<lparr>children1 := c\<rparr>)) \<and>
            Execute (children1 s1) = (Some t, c) \<and> left_child_done s1 \<and> left_result_tiles s1 = [])"
      by (auto simp: old_pick_right_def Let_def return_BuildOuterJoinOutput_eq BufferRightTile_def
          split: if_splits prod.splits option.splits)
    with b pl show ?thesis by auto
  qed
qed


lemma run_measure_lex:
  assumes "\<not> (left_child_done s \<and> right_child_done s)"
    and "(left_child_done s' \<and> right_child_done s') \<or>
         (old_measure s', old_measure s) \<in> less_than <*lex*> less_than"
  shows "(run_measure s', run_measure s) \<in> less_than <*lex*> less_than <*lex*> less_than"
  using assms by (cases "old_measure s'"; cases "old_measure s") (auto simp: run_measure_def)

lemma delegate_decreases:
  assumes nd: "\<not> (left_child_done s \<and> right_child_done s)"
    and pl: "pick_left s = Inr (adv, s1)"
    and s2: "s2 = s1 \<and> right_child_done s1 \<and> right_result_tiles s1 = [] \<or>
              (\<exists>c. s2 = s1\<lparr>children1 := c, right_child_done := True\<rparr> \<and>
                   Execute (children1 s1) = (None, c)) \<or>
              (\<exists>c t. s2 = BufferRightTile t (s1\<lparr>children1 := c\<rparr>) \<and>
                   Execute (children1 s1) = (Some t, c) \<and> left_child_done s1 \<and>
                   left_result_tiles s1 = [])"
  shows "(left_child_done s2 \<and> right_child_done s2) \<or>
         (old_measure s2, old_measure s) \<in> less_than <*lex*> less_than"
proof (cases "left_child_done s")
  case True
  with nd pl s2 show ?thesis
    by (auto simp: pick_left_def Let_def old_measure_def BufferRightTile_def
        split: if_splits prod.splits option.splits dest!: Execute_Some Execute_None)
next
  case False
  with nd pl s2 show ?thesis
    by (auto simp: pick_left_def Let_def old_measure_def BufferRightTile_def BufferLeftTile_def
        split: if_splits prod.splits option.splits dest!: Execute_Some Execute_None)
qed

lemma Old_body_run_decreases:
  assumes nd: "\<not> (left_child_done s \<and> right_child_done s)"
    and step: "Old_DExecute_body s = Continue s' \<or> Old_DExecute_body s = Return out s'"
  shows "(run_measure s', run_measure s) \<in> less_than <*lex*> less_than <*lex*> less_than"
proof -
  from Old_body_cases[OF nd] consider
    (F) f where "Old_DExecute_body s = Fault f"
  | (P) adv s1 s2 s'' where "pick_left s = Inr (adv, s1)" "old_pick_right adv s1 = Continue s2"
      "same_control s2 s''" "left_result_itr s2 < length (left_result_tiles s2)"
      "Old_DExecute_body s = Continue s'' \<or> (\<exists>out. Old_DExecute_body s = Return out s'')"
  | (D) adv s1 s2 where "pick_left s = Inr (adv, s1)"
      "Old_DExecute_body s = return_BuildOuterJoinOutput s2"
      "s2 = s1 \<and> right_child_done s1 \<and> right_result_tiles s1 = [] \<or>
              (\<exists>c. s2 = s1\<lparr>children1 := c, right_child_done := True\<rparr> \<and>
                   Execute (children1 s1) = (None, c)) \<or>
              (\<exists>c t. s2 = BufferRightTile t (s1\<lparr>children1 := c\<rparr>) \<and>
                   Execute (children1 s1) = (Some t, c) \<and> left_child_done s1 \<and>
                   left_result_tiles s1 = [])"
    by blast
  then show ?thesis
  proof cases
    case F
    with step show ?thesis by simp
  next
    case P
    from P(5) step have e: "s'' = s'" by auto
    have "old_measure s' = old_measure s2"
      using same_controlD[OF P(3)] e by (simp add: old_measure_def)
    with pick_pair_decreases[OF P(1,2,4)] run_measure_lex[OF nd] show ?thesis by simp
  next
    case D
    from D(2) step have s': "s' = snd (BuildOuterJoinOutput s2)"
      by (auto simp: return_BuildOuterJoinOutput_eq)
    from BuildOuterJoinOutput_cursors[of s2] obtain a b' where
      e: "s' = s2\<lparr>left_matching_idx := a, right_matching_idx := b'\<rparr>" unfolding s' by blast
    have "old_measure s' = old_measure s2" "left_child_done s' = left_child_done s2"
      "right_child_done s' = right_child_done s2"
      by (simp_all add: e)
    with delegate_decreases[OF nd D(1,3)] run_measure_lex[OF nd, of s'] show ?thesis by simp
  qed
qed

text \<open>
  The pairings of a run of \<open>Old_DExecute\<close>: the passes through the body of its loop are
  followed, over the returns of the calls, until both children are exhausted or a pass
  faults. Every pass that reaches the matcher is listed with the position of the left tile
  and of the right tile in their buffers and the position lists the matcher built (empty
  when the loop goes round again without returning).
\<close>

function Old_pairings :: "executor \<Rightarrow> (nat \<times> nat \<times> (oid \<times> oid) list) list" where
  "Old_pairings s =
     (if left_child_done s \<and> right_child_done s then []
      else
        case Old_DExecute_body s of
          Fault f \<Rightarrow> []
        | Continue s' \<Rightarrow>
            (left_result_itr s', length (right_result_tiles s') - 1, []) # Old_pairings s'
        | Return (Some (Joined_Tile l r b)) s' \<Rightarrow> (l, r, b) # Old_pairings s'
        | Return _ s' \<Rightarrow> Old_pairings s')"
  by pat_completeness auto
termination
  by (relation "inv_image (less_than <*lex*> less_than <*lex*> less_than) run_measure")
     (auto intro: Old_body_run_decreases)

declare Old_pairings.simps [simp del]

text \<open>The part of the executor that decides which tiles are paired.\<close>

definition ctl ::
  "executor \<Rightarrow> logical_tile list \<times> logical_tile list \<times> logical_tile list \<times> logical_tile list \<times>
     nat \<times> bool \<times> bool" where
  "ctl s =
     (remaining_tiles (children0 s), remaining_tiles (children1 s), left_result_tiles s,
      right_result_tiles s, left_result_itr s, left_child_done s, right_child_done s)"

definition cfg :: "executor \<Rightarrow> join_predicate option \<times> bool" where
  "cfg s = (predicate s, asserts_enabled s)"

lemma ctl_cursors [simp]:
  "ctl (s\<lparr>left_matching_idx := a, right_matching_idx := b\<rparr>) = ctl s"
  "cfg (s\<lparr>left_matching_idx := a, right_matching_idx := b\<rparr>) = cfg s"
  by (simp_all add: ctl_def cfg_def)

lemma ctl_same_control: "same_control s s' \<Longrightarrow> ctl s' = ctl s \<and> cfg s' = cfg s"
  using same_controlD[of s s'] by (simp add: ctl_def cfg_def)

lemma join_matches_cfg: "cfg s' = cfg s \<Longrightarrow> join_matches s' = join_matches s"
  by (auto simp: cfg_def join_matches_def spec_accepts_def fun_eq_iff)

lemma Old_pairings_done:
  "left_child_done s \<Longrightarrow> right_child_done s \<Longrightarrow> Old_pairings s = []"
  by (subst Old_pairings.simps) simp

lemma pairing_step:
  assumes nd: "\<not> (left_child_done s \<and> right_child_done s)"
    and pl: "pick_left s = Inr (adv, s1)"
    and pr: "old_pick_right adv s1 = Continue s2"
    and inb: "left_result_itr s2 < length (left_result_tiles s2)"
  shows "\<exists>s'. ctl s' = ctl s2 \<and> cfg s' = cfg s2 \<and>
           Old_pairings s =
             (left_result_itr s2, length (right_result_tiles s2) - 1,
              join_matches s2 (left_result_tiles s2 ! left_result_itr s2)
                (last (right_result_tiles s2))) # Old_pairings s'"
proof -
  let ?lt = "left_result_tiles s2 ! left_result_itr s2"
  let ?rt = "last (right_result_tiles s2)"
  obtain b s' where jl: "join_outer_loop ?lt ?rt (tile_rows ?rt) ([], s2) = (b, s')"
    by (cases "join_outer_loop ?lt ?rt (tile_rows ?rt) ([], s2)")
  have b: "b = join_matches s2 ?lt ?rt"
    using jl by (simp add: join_outer_loop_eq join_matches_def)
  have sc: "same_control s2 s'" using jl by (rule join_outer_loop_frame)
  note fields = same_controlD[OF sc]
  have ne: "right_result_tiles s2 \<noteq> []" using pr by (rule old_pick_right_Continue(1))
  have body: "Old_DExecute_body s = build_join_tile ?lt ?rt s2"
    using nd pl pr inb ne by (simp add: Old_body_not_done old_join_def)
  have "Old_pairings s =
      (left_result_itr s2, length (right_result_tiles s2) - 1, b) # Old_pairings s'"
  proof (cases "b = []")
    case True
    then have "Old_DExecute_body s = Continue s'"
      using body jl by (simp add: build_join_tile_def)
    then show ?thesis using nd True fields
      by (subst Old_pairings.simps) auto
  next
    case False
    then have "Old_DExecute_body s =
        Return (Some (Joined_Tile (left_result_itr s') (length (right_result_tiles s') - 1) b)) s'"
      using body jl by (simp add: build_join_tile_def)
    then show ?thesis using nd fields
      by (subst Old_pairings.simps) auto
  qed
  with b ctl_same_control[OF sc] show ?thesis by blast
qed

lemma delegation_step:
  assumes nd: "\<not> (left_child_done s \<and> right_child_done s)"
    and body: "Old_DExecute_body s = return_BuildOuterJoinOutput s2"
  shows "\<exists>s'. ctl s' = ctl s2 \<and> cfg s' = cfg s2 \<and> Old_pairings s = Old_pairings s'"
proof -
  from BuildOuterJoinOutput_cursors[of s2] obtain a b where
    e: "snd (BuildOuterJoinOutput s2) = s2\<lparr>left_matching_idx := a, right_matching_idx := b\<rparr>"
    by blast
  let ?s' = "s2\<lparr>left_matching_idx := a, right_matching_idx := b\<rparr>"
  have r: "Old_DExecute_body s = Return (fst (BuildOuterJoinOutput s2)) ?s'"
    using body e by (simp add: return_BuildOuterJoinOutput_eq)
  have "Old_pairings s = Old_pairings ?s'"
  proof (cases "fst (BuildOuterJoinOutput s2)")
    case None
    with r nd show ?thesis by (subst Old_pairings.simps) auto
  next
    case (Some out)
    with BuildOuterJoinOutput_not_Joined[of s2] have "\<And>l r b. out \<noteq> Joined_Tile l r b" by auto
    with r nd Some show ?thesis
      by (subst Old_pairings.simps) (cases out; auto)
  qed
  then show ?thesis by (intro exI[of _ ?s']) simp
qed

lemma pick_left_pull:
  assumes "\<not> left_child_done s" "remaining_tiles (children0 s) = t # Lr"
  shows "pick_left s =
     Inr (False,
       s\<lparr>children0 := (children0 s)\<lparr>scan_pending := Some Lr\<rparr>,
         left_result_tiles := left_result_tiles s @ [t],
         left_matched := left_matched s @ [replicate (length t) False],
         left_result_itr := length (left_result_tiles s)\<rparr>)"
  using assms by (simp add: pick_left_def Execute_def BufferLeftTile_def)

lemma pick_left_exhausted:
  assumes "\<not> left_child_done s" "remaining_tiles (children0 s) = []"
  shows "pick_left s =
     Inr (True,
       s\<lparr>children0 := (children0 s)\<lparr>scan_pending := Some []\<rparr>, left_child_done := True,
         left_result_itr := 0\<rparr>)"
  using assms by (simp add: pick_left_def Execute_def)

lemma pick_left_next:
  assumes "left_child_done s" "right_result_tiles s \<noteq> []"
    and "left_result_itr s + 1 < length (left_result_tiles s)"
  shows "pick_left s = Inr (False, s\<lparr>left_result_itr := left_result_itr s + 1\<rparr>)"
  using assms by (simp add: pick_left_def)

lemma pick_left_wrap:
  assumes "left_child_done s" "right_result_tiles s \<noteq> []"
    and "length (left_result_tiles s) \<le> left_result_itr s + 1"
  shows "pick_left s = Inr (True, s\<lparr>left_result_itr := 0\<rparr>)"
  using assms by (simp add: pick_left_def)

lemma old_pick_right_keep:
  "\<not> adv \<Longrightarrow> right_result_tiles s \<noteq> [] \<Longrightarrow> old_pick_right adv s = Continue s"
  by (simp add: old_pick_right_def)

lemma old_pick_right_done_empty:
  "right_child_done s \<Longrightarrow> right_result_tiles s = [] \<Longrightarrow>
     old_pick_right adv s = return_BuildOuterJoinOutput s"
  by (simp add: old_pick_right_def)

lemma old_pick_right_exhausted:
  assumes "adv \<or> right_result_tiles s = []" "\<not> right_child_done s"
    and "left_result_itr s = 0" "remaining_tiles (children1 s) = []"
  shows "old_pick_right adv s =
     return_BuildOuterJoinOutput
       (s\<lparr>children1 := (children1 s)\<lparr>scan_pending := Some []\<rparr>, right_child_done := True\<rparr>)"
  using assms by (auto simp: old_pick_right_def Execute_def)

lemma old_pick_right_pull:
  assumes "adv \<or> right_result_tiles s = []" "\<not> right_child_done s"
    and "left_result_itr s = 0" "remaining_tiles (children1 s) = r # Rr"
  shows "old_pick_right adv s =
     (let s1 = s\<lparr>children1 := (children1 s)\<lparr>scan_pending := Some Rr\<rparr>,
                 right_result_tiles := right_result_tiles s @ [r],
                 right_matched := right_matched s @ [replicate (length r) False]\<rparr>
      in if left_child_done s \<and> left_result_tiles s = []
         then return_BuildOuterJoinOutput s1 else Continue s1)"
  using assms by (auto simp: old_pick_right_def Execute_def BufferRightTile_def Let_def)

lemma Old_body_delegated:
  assumes "\<not> (left_child_done s \<and> right_child_done s)"
    and "pick_left s = Inr (adv, s1)"
    and "old_pick_right adv s1 = return_BuildOuterJoinOutput s2"
  shows "Old_DExecute_body s = return_BuildOuterJoinOutput s2"
  using assms by (simp add: Old_body_not_done return_BuildOuterJoinOutput_eq)

lemma ctlD:
  assumes "ctl s = (Ll, Rr, Lb, Rb, i, ld, rd)"
  shows "remaining_tiles (children0 s) = Ll" "remaining_tiles (children1 s) = Rr"
    "left_result_tiles s = Lb" "right_result_tiles s = Rb" "left_result_itr s = i"
    "left_child_done s = ld" "right_child_done s = rd"
  using assms by (simp_all add: ctl_def)

lemma pairing_pass:
  assumes "\<not> (left_child_done s \<and> right_child_done s)"
    and "pick_left s = Inr (adv, s1)"
    and "old_pick_right adv s1 = Continue s2"
    and "left_result_itr s2 < length (left_result_tiles s2)"
    and "ctl s2 = C" "cfg s2 = cfg s"
    and "left_result_itr s2 = a" "length (right_result_tiles s2) - 1 = b"
    and "left_result_tiles s2 ! a = lt" "last (right_result_tiles s2) = rt"
  shows "\<exists>s'. ctl s' = C \<and> cfg s' = cfg s \<and>
           Old_pairings s = (a, b, join_matches s lt rt) # Old_pairings s'"
proof -
  from pairing_step[OF assms(1-4)] obtain s' where
    s': "ctl s' = ctl s2" "cfg s' = cfg s2"
      "Old_pairings s =
             (left_result_itr s2, length (right_result_tiles s2) - 1,
              join_matches s2 (left_result_tiles s2 ! left_result_itr s2)
                (last (right_result_tiles s2))) # Old_pairings s'"
    by blast
  have jm: "join_matches s2 = join_matches s" using assms(6) by (rule join_matches_cfg)
  have "Old_pairings s = (a, b, join_matches s lt rt) # Old_pairings s'"
    using s'(3) unfolding jm assms(7) assms(8) assms(9) assms(10) .
  with s'(1,2) assms(5,6) show ?thesis by auto
qed

lemma delegation_pass:
  assumes "\<not> (left_child_done s \<and> right_child_done s)"
    and "pick_left s = Inr (adv, s1)"
    and "old_pick_right adv s1 = return_BuildOuterJoinOutput s2"
    and "ctl s2 = C" "cfg s2 = cfg s"
  shows "\<exists>s'. ctl s' = C \<and> cfg s' = cfg s \<and> Old_pairings s = Old_pairings s'"
  using delegation_step[OF assms(1) Old_body_delegated[OF assms(1-3)]] assms(4,5) by auto

text \<open>The passes of the loop, by the state they start from.\<close>

lemma pass_left_pull:
  assumes c: "ctl s = (t # Lr, Rr, Lb, Rb, i, False, rd)" and ne: "Rb \<noteq> []"
  shows "\<exists>s'. ctl s' = (Lr, Rr, Lb @ [t], Rb, length Lb, False, rd) \<and> cfg s' = cfg s \<and>
           Old_pairings s = (length Lb, length Rb - 1, join_matches s t (last Rb)) # Old_pairings s'"
proof -
  note f = ctlD[OF c]
  let ?s1 = "s\<lparr>children0 := (children0 s)\<lparr>scan_pending := Some Lr\<rparr>,
         left_result_tiles := left_result_tiles s @ [t],
         left_matched := left_matched s @ [replicate (length t) False],
         left_result_itr := length (left_result_tiles s)\<rparr>"
  have nd: "\<not> (left_child_done s \<and> right_child_done s)" using f by simp
  have pl: "pick_left s = Inr (False, ?s1)" using f by (intro pick_left_pull) simp_all
  have pr: "old_pick_right False ?s1 = Continue ?s1"
    using f ne by (intro old_pick_right_keep) simp_all
  have inb: "left_result_itr ?s1 < length (left_result_tiles ?s1)" by simp
  show ?thesis
    by (rule pairing_pass[OF nd pl pr inb]) (use f ne in \<open>simp_all add: ctl_def cfg_def remaining_tiles_def\<close>)
qed

lemma pass_first_pair:
  assumes c: "ctl s = (t # Lr, r # Rr, [], [], i, False, False)"
  shows "\<exists>s'. ctl s' = (Lr, Rr, [t], [r], 0, False, False) \<and> cfg s' = cfg s \<and>
           Old_pairings s = (0, 0, join_matches s t r) # Old_pairings s'"
proof -
  note f = ctlD[OF c]
  let ?s1 = "s\<lparr>children0 := (children0 s)\<lparr>scan_pending := Some Lr\<rparr>,
         left_result_tiles := left_result_tiles s @ [t],
         left_matched := left_matched s @ [replicate (length t) False],
         left_result_itr := length (left_result_tiles s)\<rparr>"
  let ?s2 = "?s1\<lparr>children1 := (children1 ?s1)\<lparr>scan_pending := Some Rr\<rparr>,
                 right_result_tiles := right_result_tiles ?s1 @ [r],
                 right_matched := right_matched ?s1 @ [replicate (length r) False]\<rparr>"
  have nd: "\<not> (left_child_done s \<and> right_child_done s)" using f by simp
  have pl: "pick_left s = Inr (False, ?s1)" using f by (intro pick_left_pull) simp_all
  have "old_pick_right False ?s1 = (let s1 = ?s2 in
      if left_child_done ?s1 \<and> left_result_tiles ?s1 = []
      then return_BuildOuterJoinOutput s1 else Continue s1)"
    using f by (intro old_pick_right_pull) simp_all
  then have pr: "old_pick_right False ?s1 = Continue ?s2" by (simp add: Let_def)
  have inb: "left_result_itr ?s2 < length (left_result_tiles ?s2)" using f by simp
  show ?thesis
    by (rule pairing_pass[OF nd pl pr inb]) (use f in \<open>simp_all add: ctl_def cfg_def remaining_tiles_def\<close>)
qed

lemma pass_first_right_empty:
  assumes c: "ctl s = (t # Lr, [], [], [], i, False, False)"
  shows "\<exists>s'. ctl s' = (Lr, [], [t], [], 0, False, True) \<and> cfg s' = cfg s \<and>
           Old_pairings s = Old_pairings s'"
proof -
  note f = ctlD[OF c]
  let ?s1 = "s\<lparr>children0 := (children0 s)\<lparr>scan_pending := Some Lr\<rparr>,
         left_result_tiles := left_result_tiles s @ [t],
         left_matched := left_matched s @ [replicate (length t) False],
         left_result_itr := length (left_result_tiles s)\<rparr>"
  let ?s2 = "?s1\<lparr>children1 := (children1 ?s1)\<lparr>scan_pending := Some []\<rparr>, right_child_done := True\<rparr>"
  have nd: "\<not> (left_child_done s \<and> right_child_done s)" using f by simp
  have pl: "pick_left s = Inr (False, ?s1)" using f by (intro pick_left_pull) simp_all
  have pr: "old_pick_right False ?s1 = return_BuildOuterJoinOutput ?s2"
    using f by (intro old_pick_right_exhausted) simp_all
  show ?thesis
    by (rule delegation_pass[OF nd pl pr]) (use f in \<open>simp_all add: ctl_def cfg_def remaining_tiles_def\<close>)
qed

lemma pass_right_gone_pull:
  assumes c: "ctl s = (t # Lr, Rr, Lb, [], i, False, True)"
  shows "\<exists>s'. ctl s' = (Lr, Rr, Lb @ [t], [], length Lb, False, True) \<and> cfg s' = cfg s \<and>
           Old_pairings s = Old_pairings s'"
proof -
  note f = ctlD[OF c]
  let ?s1 = "s\<lparr>children0 := (children0 s)\<lparr>scan_pending := Some Lr\<rparr>,
         left_result_tiles := left_result_tiles s @ [t],
         left_matched := left_matched s @ [replicate (length t) False],
         left_result_itr := length (left_result_tiles s)\<rparr>"
  have nd: "\<not> (left_child_done s \<and> right_child_done s)" using f by simp
  have pl: "pick_left s = Inr (False, ?s1)" using f by (intro pick_left_pull) simp_all
  have pr: "old_pick_right False ?s1 = return_BuildOuterJoinOutput ?s1"
    using f by (intro old_pick_right_done_empty) simp_all
  show ?thesis
    by (rule delegation_pass[OF nd pl pr]) (use f in \<open>simp_all add: ctl_def cfg_def remaining_tiles_def\<close>)
qed

lemma pass_right_gone_end:
  assumes c: "ctl s = ([], Rr, Lb, [], i, False, True)"
  shows "Old_pairings s = []"
proof -
  note f = ctlD[OF c]
  let ?s1 = "s\<lparr>children0 := (children0 s)\<lparr>scan_pending := Some []\<rparr>, left_child_done := True,
         left_result_itr := 0\<rparr>"
  have nd: "\<not> (left_child_done s \<and> right_child_done s)" using f by simp
  have pl: "pick_left s = Inr (True, ?s1)" using f by (intro pick_left_exhausted) simp_all
  have pr: "old_pick_right True ?s1 = return_BuildOuterJoinOutput ?s1"
    using f by (intro old_pick_right_done_empty) simp_all
  from delegation_step[OF nd Old_body_delegated[OF nd pl pr]] obtain s' where
    s': "ctl s' = ctl ?s1" "Old_pairings s = Old_pairings s'" by blast
  have "left_child_done s'" "right_child_done s'"
    using s'(1) f by (simp_all add: ctl_def)
  with s'(2) show ?thesis by (simp add: Old_pairings_done)
qed

lemma pass_left_end_right_end:
  assumes c: "ctl s = ([], [], Lb, Rb, i, False, False)"
  shows "Old_pairings s = []"
proof -
  note f = ctlD[OF c]
  let ?s1 = "s\<lparr>children0 := (children0 s)\<lparr>scan_pending := Some []\<rparr>, left_child_done := True,
         left_result_itr := 0\<rparr>"
  let ?s2 = "?s1\<lparr>children1 := (children1 ?s1)\<lparr>scan_pending := Some []\<rparr>, right_child_done := True\<rparr>"
  have nd: "\<not> (left_child_done s \<and> right_child_done s)" using f by simp
  have pl: "pick_left s = Inr (True, ?s1)" using f by (intro pick_left_exhausted) simp_all
  have pr: "old_pick_right True ?s1 = return_BuildOuterJoinOutput ?s2"
    using f by (intro old_pick_right_exhausted) simp_all
  from delegation_step[OF nd Old_body_delegated[OF nd pl pr]] obtain s' where
    s': "ctl s' = ctl ?s2" "Old_pairings s = Old_pairings s'" by blast
  have "left_child_done s'" "right_child_done s'"
    using s'(1) f by (simp_all add: ctl_def)
  with s'(2) show ?thesis by (simp add: Old_pairings_done)
qed

lemma pass_left_end_pair:
  assumes c: "ctl s = ([], r # Rr, Lb, Rb, i, False, False)" and ne: "Lb \<noteq> []"
  shows "\<exists>s'. ctl s' = ([], Rr, Lb, Rb @ [r], 0, True, False) \<and> cfg s' = cfg s \<and>
           Old_pairings s = (0, length Rb, join_matches s (Lb ! 0) r) # Old_pairings s'"
proof -
  note f = ctlD[OF c]
  let ?s1 = "s\<lparr>children0 := (children0 s)\<lparr>scan_pending := Some []\<rparr>, left_child_done := True,
         left_result_itr := 0\<rparr>"
  let ?s2 = "?s1\<lparr>children1 := (children1 ?s1)\<lparr>scan_pending := Some Rr\<rparr>,
                 right_result_tiles := right_result_tiles ?s1 @ [r],
                 right_matched := right_matched ?s1 @ [replicate (length r) False]\<rparr>"
  have nd: "\<not> (left_child_done s \<and> right_child_done s)" using f by simp
  have pl: "pick_left s = Inr (True, ?s1)" using f by (intro pick_left_exhausted) simp_all
  have "old_pick_right True ?s1 = (let s1 = ?s2 in
      if left_child_done ?s1 \<and> left_result_tiles ?s1 = []
      then return_BuildOuterJoinOutput s1 else Continue s1)"
    using f by (intro old_pick_right_pull) simp_all
  then have pr: "old_pick_right True ?s1 = Continue ?s2" using f ne by (simp add: Let_def)
  have inb: "left_result_itr ?s2 < length (left_result_tiles ?s2)" using f ne by simp
  show ?thesis
    by (rule pairing_pass[OF nd pl pr inb]) (use f ne in \<open>simp_all add: ctl_def cfg_def remaining_tiles_def\<close>)
qed

lemma pass_left_end_no_left:
  assumes c: "ctl s = ([], r # Rr, [], Rb, i, False, False)"
  shows "\<exists>s'. ctl s' = ([], Rr, [], Rb @ [r], 0, True, False) \<and> cfg s' = cfg s \<and>
           Old_pairings s = Old_pairings s'"
proof -
  note f = ctlD[OF c]
  let ?s1 = "s\<lparr>children0 := (children0 s)\<lparr>scan_pending := Some []\<rparr>, left_child_done := True,
         left_result_itr := 0\<rparr>"
  let ?s2 = "?s1\<lparr>children1 := (children1 ?s1)\<lparr>scan_pending := Some Rr\<rparr>,
                 right_result_tiles := right_result_tiles ?s1 @ [r],
                 right_matched := right_matched ?s1 @ [replicate (length r) False]\<rparr>"
  have nd: "\<not> (left_child_done s \<and> right_child_done s)" using f by simp
  have pl: "pick_left s = Inr (True, ?s1)" using f by (intro pick_left_exhausted) simp_all
  have "old_pick_right True ?s1 = (let s1 = ?s2 in
      if left_child_done ?s1 \<and> left_result_tiles ?s1 = []
      then return_BuildOuterJoinOutput s1 else Continue s1)"
    using f by (intro old_pick_right_pull) simp_all
  then have pr: "old_pick_right True ?s1 = return_BuildOuterJoinOutput ?s2"
    using f by (simp add: Let_def)
  show ?thesis
    by (rule delegation_pass[OF nd pl pr]) (use f in \<open>simp_all add: ctl_def cfg_def remaining_tiles_def\<close>)
qed

lemma pass_no_left_pull:
  assumes c: "ctl s = (Ll, r # Rr, [], Rb, i, True, False)" and ne: "Rb \<noteq> []"
  shows "\<exists>s'. ctl s' = (Ll, Rr, [], Rb @ [r], 0, True, False) \<and> cfg s' = cfg s \<and>
           Old_pairings s = Old_pairings s'"
proof -
  note f = ctlD[OF c]
  let ?s1 = "s\<lparr>left_result_itr := 0\<rparr>"
  let ?s2 = "?s1\<lparr>children1 := (children1 ?s1)\<lparr>scan_pending := Some Rr\<rparr>,
                 right_result_tiles := right_result_tiles ?s1 @ [r],
                 right_matched := right_matched ?s1 @ [replicate (length r) False]\<rparr>"
  have nd: "\<not> (left_child_done s \<and> right_child_done s)" using f by simp
  have pl: "pick_left s = Inr (True, ?s1)" using f ne by (intro pick_left_wrap) simp_all
  have "old_pick_right True ?s1 = (let s1 = ?s2 in
      if left_child_done ?s1 \<and> left_result_tiles ?s1 = []
      then return_BuildOuterJoinOutput s1 else Continue s1)"
    using f by (intro old_pick_right_pull) simp_all
  then have pr: "old_pick_right True ?s1 = return_BuildOuterJoinOutput ?s2"
    using f by (simp add: Let_def)
  show ?thesis
    by (rule delegation_pass[OF nd pl pr]) (use f in \<open>simp_all add: ctl_def cfg_def remaining_tiles_def\<close>)
qed

lemma pass_wrap_end:
  assumes c: "ctl s = (Ll, [], Lb, Rb, i, True, False)" and ne: "Rb \<noteq> []"
    and w: "length Lb \<le> i + 1"
  shows "Old_pairings s = []"
proof -
  note f = ctlD[OF c]
  let ?s1 = "s\<lparr>left_result_itr := 0\<rparr>"
  let ?s2 = "?s1\<lparr>children1 := (children1 ?s1)\<lparr>scan_pending := Some []\<rparr>, right_child_done := True\<rparr>"
  have nd: "\<not> (left_child_done s \<and> right_child_done s)" using f by simp
  have pl: "pick_left s = Inr (True, ?s1)" using f ne w by (intro pick_left_wrap) simp_all
  have pr: "old_pick_right True ?s1 = return_BuildOuterJoinOutput ?s2"
    using f by (intro old_pick_right_exhausted) simp_all
  from delegation_step[OF nd Old_body_delegated[OF nd pl pr]] obtain s' where
    s': "ctl s' = ctl ?s2" "Old_pairings s = Old_pairings s'" by blast
  have "left_child_done s'" "right_child_done s'"
    using s'(1) f by (simp_all add: ctl_def)
  with s'(2) show ?thesis by (simp add: Old_pairings_done)
qed

lemma pass_next_left:
  assumes c: "ctl s = (Ll, Rr, Lb, Rb, i, True, False)" and ne: "Rb \<noteq> []"
    and n: "i + 1 < length Lb"
  shows "\<exists>s'. ctl s' = (Ll, Rr, Lb, Rb, i + 1, True, False) \<and> cfg s' = cfg s \<and>
           Old_pairings s =
             (i + 1, length Rb - 1, join_matches s (Lb ! (i + 1)) (last Rb)) # Old_pairings s'"
proof -
  note f = ctlD[OF c]
  let ?s1 = "s\<lparr>left_result_itr := left_result_itr s + 1\<rparr>"
  have nd: "\<not> (left_child_done s \<and> right_child_done s)" using f by simp
  have pl: "pick_left s = Inr (False, ?s1)" using f ne n by (intro pick_left_next) simp_all
  have pr: "old_pick_right False ?s1 = Continue ?s1"
    using f ne by (intro old_pick_right_keep) simp_all
  have inb: "left_result_itr ?s1 < length (left_result_tiles ?s1)" using f n by simp
  show ?thesis
    by (rule pairing_pass[OF nd pl pr inb]) (use f ne in \<open>simp_all add: ctl_def cfg_def remaining_tiles_def\<close>)
qed

lemma pass_wrap_pair:
  assumes c: "ctl s = (Ll, r # Rr, Lb, Rb, i, True, False)" and ne: "Rb \<noteq> []" "Lb \<noteq> []"
    and w: "length Lb \<le> i + 1"
  shows "\<exists>s'. ctl s' = (Ll, Rr, Lb, Rb @ [r], 0, True, False) \<and> cfg s' = cfg s \<and>
           Old_pairings s = (0, length Rb, join_matches s (Lb ! 0) r) # Old_pairings s'"
proof -
  note f = ctlD[OF c]
  let ?s1 = "s\<lparr>left_result_itr := 0\<rparr>"
  let ?s2 = "?s1\<lparr>children1 := (children1 ?s1)\<lparr>scan_pending := Some Rr\<rparr>,
                 right_result_tiles := right_result_tiles ?s1 @ [r],
                 right_matched := right_matched ?s1 @ [replicate (length r) False]\<rparr>"
  have nd: "\<not> (left_child_done s \<and> right_child_done s)" using f by simp
  have pl: "pick_left s = Inr (True, ?s1)" using f ne w by (intro pick_left_wrap) simp_all
  have "old_pick_right True ?s1 = (let s1 = ?s2 in
      if left_child_done ?s1 \<and> left_result_tiles ?s1 = []
      then return_BuildOuterJoinOutput s1 else Continue s1)"
    using f by (intro old_pick_right_pull) simp_all
  then have pr: "old_pick_right True ?s1 = Continue ?s2" using f ne by (simp add: Let_def)
  have inb: "left_result_itr ?s2 < length (left_result_tiles ?s2)" using f ne by simp
  show ?thesis
    by (rule pairing_pass[OF nd pl pr inb]) (use f ne in \<open>simp_all add: ctl_def cfg_def remaining_tiles_def\<close>)
qed

text \<open>
  What a run is expected to pair: every right batch, in the order of arrival, with every
  left batch in the order of arrival, each with the pairs the matcher accepts.
\<close>

definition pair_row ::
  "executor \<Rightarrow> nat \<Rightarrow> logical_tile \<Rightarrow> (nat \<times> logical_tile) list \<Rightarrow>
     (nat \<times> nat \<times> (oid \<times> oid) list) list" where
  "pair_row s j r ls = map (\<lambda>(i, l). (i, j, join_matches s l r)) ls"

definition all_pairings ::
  "executor \<Rightarrow> logical_tile list \<Rightarrow> logical_tile list \<Rightarrow> (nat \<times> nat \<times> (oid \<times> oid) list) list" where
  "all_pairings s L R =
     concat (map (\<lambda>(j, r). pair_row s j r (enumerate 0 L)) (enumerate 0 R))"

lemma pair_row_simps [simp]:
  "pair_row s j r [] = []"
  "pair_row s j r ((i, l) # ls) = (i, j, join_matches s l r) # pair_row s j r ls"
  by (simp_all add: pair_row_def)

lemma pair_row_cfg: "cfg s' = cfg s \<Longrightarrow> pair_row s' = pair_row s"
  using join_matches_cfg[of s' s] by (simp add: pair_row_def fun_eq_iff)

lemma concat_pair_row_Nil [simp]:
  "concat (map (\<lambda>(j, r). pair_row s j r []) rs) = []"
  by (induction rs) auto

lemma enumerate_drop_Suc:
  assumes "i < length xs"
  shows "enumerate i (drop i xs) = (i, xs ! i) # enumerate (Suc i) (drop (Suc i) xs)"
proof -
  have "drop i xs = xs ! i # drop (Suc i) xs"
    using assms by (rule Cons_nth_drop_Suc[symmetric])
  then have "enumerate i (drop i xs) = enumerate i (xs ! i # drop (Suc i) xs)"
    by (rule arg_cong)
  then show ?thesis by (simp only: enumerate_simps)
qed

lemma right_gone:
  "ctl s = (Lr, Rr, Lb, [], i, False, True) \<Longrightarrow> Old_pairings s = []"
proof (induction Lr arbitrary: s Lb i)
  case Nil
  then show ?case by (rule pass_right_gone_end)
next
  case (Cons t Lr)
  from pass_right_gone_pull[OF Cons.prems] obtain s' where
    "ctl s' = (Lr, Rr, Lb @ [t], [], length Lb, False, True)" "Old_pairings s = Old_pairings s'"
    by blast
  with Cons.IH show ?case by simp
qed

lemma no_left:
  "ctl s = (Ll, Rr, [], Rb, i, True, False) \<Longrightarrow> Rb \<noteq> [] \<Longrightarrow> Old_pairings s = []"
proof (induction Rr arbitrary: s Rb i)
  case Nil
  have "length ([]::logical_tile list) \<le> i + 1" by simp
  from pass_wrap_end[OF Nil.prems(1,2) this] show ?case .
next
  case (Cons r Rr)
  from pass_no_left_pull[OF Cons.prems] obtain s' where
    "ctl s' = (Ll, Rr, [], Rb @ [r], 0, True, False)" "Old_pairings s = Old_pairings s'"
    by blast
  with Cons.IH[of s' "Rb @ [r]" 0] show ?case by simp
qed

lemma left_buffered:
  assumes "ctl s = (Ll, Rr, Lb, Rb, i, True, False)" "Rb \<noteq> []" "i < length Lb"
  shows "Old_pairings s =
     pair_row s (length Rb - 1) (last Rb) (enumerate (Suc i) (drop (Suc i) Lb)) @
     concat (map (\<lambda>(j, r). pair_row s j r (enumerate 0 Lb)) (enumerate (length Rb) Rr))"
  using assms
proof (induction "length Rr * (length Lb + 1) + (length Lb - i)" arbitrary: s Rr Rb i
    rule: less_induct)
  case less
  let ?rest = "\<lambda>k rs. concat (map (\<lambda>(j, r). pair_row s j r (enumerate 0 Lb)) (enumerate k rs))"
  show ?case
  proof (cases "i + 1 < length Lb")
    case True
    from pass_next_left[OF less.prems(1,2) True] obtain s' where
      s': "ctl s' = (Ll, Rr, Lb, Rb, i + 1, True, False)" "cfg s' = cfg s"
        "Old_pairings s =
           (i + 1, length Rb - 1, join_matches s (Lb ! (i + 1)) (last Rb)) # Old_pairings s'"
      by blast
    have m: "length Rr * (length Lb + 1) + (length Lb - (i + 1))
        < length Rr * (length Lb + 1) + (length Lb - i)"
      using True by simp
    have A: "Old_pairings s' =
       pair_row s (length Rb - 1) (last Rb) (enumerate (Suc (Suc i)) (drop (Suc (Suc i)) Lb)) @
       ?rest (length Rb) Rr"
      using less.hyps[OF m s'(1) less.prems(2) True] unfolding pair_row_cfg[OF s'(2)] by simp
    have B: "enumerate (Suc i) (drop (Suc i) Lb) =
        (Suc i, Lb ! Suc i) # enumerate (Suc (Suc i)) (drop (Suc (Suc i)) Lb)"
      using True by (intro enumerate_drop_Suc) simp
    have C: "Old_pairings s =
        (Suc i, length Rb - 1, join_matches s (Lb ! Suc i) (last Rb)) # Old_pairings s'"
      using s'(3) by simp
    show ?thesis
      by (simp only: A B C pair_row_simps append_Cons)
  next
    case False
    then have w: "length Lb \<le> i + 1" by simp
    then have d: "drop (Suc i) Lb = []" by simp
    from less.prems(3) have ne: "Lb \<noteq> []" by auto
    show ?thesis
    proof (cases Rr)
      case Nil
      have "Old_pairings s = []"
        using pass_wrap_end[OF less.prems(1)[unfolded Nil] less.prems(2) w] .
      then show ?thesis by (simp only: d Nil) simp
    next
      case (Cons r Rr')
      from pass_wrap_pair[OF less.prems(1)[unfolded Cons] less.prems(2) ne w] obtain s' where
        s': "ctl s' = (Ll, Rr', Lb, Rb @ [r], 0, True, False)" "cfg s' = cfg s"
          "Old_pairings s = (0, length Rb, join_matches s (Lb ! 0) r) # Old_pairings s'"
        by blast
      have m: "length Rr' * (length Lb + 1) + (length Lb - 0)
          < length Rr * (length Lb + 1) + (length Lb - i)"
        using Cons by simp
      have z: "0 < length Lb" using ne by simp
      have ne': "Rb @ [r] \<noteq> []" by simp
      have A: "Old_pairings s' =
         pair_row s (length Rb) r (enumerate (Suc 0) (drop (Suc 0) Lb)) @
         ?rest (Suc (length Rb)) Rr'"
        using less.hyps[OF m s'(1) ne' z] unfolding pair_row_cfg[OF s'(2)] by simp
      have B: "enumerate 0 Lb = (0, Lb ! 0) # enumerate (Suc 0) (drop (Suc 0) Lb)"
        using enumerate_drop_Suc[OF z] by simp
      have "?rest (length Rb) (r # Rr') =
          pair_row s (length Rb) r (enumerate 0 Lb) @ ?rest (Suc (length Rb)) Rr'"
        by simp
      also have "\<dots> = (0, length Rb, join_matches s (Lb ! 0) r) # Old_pairings s'"
        unfolding A by (subst B) simp
      finally show ?thesis unfolding d Cons s'(3) by simp
    qed
  qed
qed

lemma left_pulling:
  assumes "ctl s = (Lr, Rr, Lb, [r0], i, False, False)" "Lb \<noteq> []"
  shows "Old_pairings s =
     pair_row s 0 r0 (enumerate (length Lb) Lr) @
     concat (map (\<lambda>(j, r). pair_row s j r (enumerate 0 (Lb @ Lr))) (enumerate 1 Rr))"
  using assms
proof (induction Lr arbitrary: s Lb i)
  case Nil
  let ?rest = "\<lambda>k rs. concat (map (\<lambda>(j, r). pair_row s j r (enumerate 0 Lb)) (enumerate k rs))"
  show ?case
  proof (cases Rr)
    case Nil
    have "Old_pairings s = []"
      using pass_left_end_right_end[OF Nil.prems(1)[unfolded Nil]] .
    then show ?thesis by (simp add: Nil)
  next
    case (Cons r Rr')
    from pass_left_end_pair[OF Nil.prems(1)[unfolded Cons] Nil.prems(2)] obtain s' where
      s': "ctl s' = ([], Rr', Lb, [r0] @ [r], 0, True, False)" "cfg s' = cfg s"
        "Old_pairings s = (0, length [r0], join_matches s (Lb ! 0) r) # Old_pairings s'"
      by blast
    have z: "0 < length Lb" using Nil.prems(2) by simp
    have ne': "[r0] @ [r] \<noteq> []" by simp
    have A: "Old_pairings s' =
       pair_row s (Suc 0) r (enumerate (Suc 0) (drop (Suc 0) Lb)) @ ?rest (Suc (Suc 0)) Rr'"
      using left_buffered[OF s'(1) ne' z] unfolding pair_row_cfg[OF s'(2)] by simp
    have B: "enumerate 0 Lb = (0, Lb ! 0) # enumerate (Suc 0) (drop (Suc 0) Lb)"
      using enumerate_drop_Suc[OF z] by simp
    have "?rest (Suc 0) (r # Rr') =
        pair_row s (Suc 0) r (enumerate 0 Lb) @ ?rest (Suc (Suc 0)) Rr'"
      by simp
    also have "\<dots> = (0, Suc 0, join_matches s (Lb ! 0) r) # Old_pairings s'"
      unfolding A by (subst B) simp
    finally show ?thesis unfolding Cons s'(3) by simp
  qed
next
  case (Cons t Lr)
  from pass_left_pull[OF Cons.prems(1)] obtain s' where
    s': "ctl s' = (Lr, Rr, Lb @ [t], [r0], length Lb, False, False)" "cfg s' = cfg s"
      "Old_pairings s = (length Lb, length [r0] - 1, join_matches s t (last [r0])) # Old_pairings s'"
    by blast
  have ne': "Lb @ [t] \<noteq> []" by simp
  have A: "Old_pairings s' =
     pair_row s 0 r0 (enumerate (Suc (length Lb)) Lr) @
     concat (map (\<lambda>(j, r). pair_row s j r (enumerate 0 (Lb @ t # Lr))) (enumerate 1 Rr))"
    using Cons.IH[OF s'(1) ne'] unfolding pair_row_cfg[OF s'(2)] by simp
  show ?case unfolding s'(3) A by simp
qed

lemma Old_pairings_fresh:
  assumes "ctl s = (L, R, [], [], i, False, False)"
  shows "Old_pairings s = all_pairings s L R"
proof (cases L)
  case Nil
  show ?thesis
  proof (cases R)
    case r: Nil
    with pass_left_end_right_end[of s "[]" "[]" i] assms Nil show ?thesis
      by (simp add: all_pairings_def)
  next
    case (Cons r R')
    from pass_left_end_no_left[OF assms[unfolded Nil Cons]] obtain s' where
      "ctl s' = ([], R', [], [] @ [r], 0, True, False)" "Old_pairings s = Old_pairings s'"
      by blast
    with no_left[of s' "[]" R' "[r]" 0] Nil show ?thesis
      by (simp add: all_pairings_def)
  qed
next
  case (Cons t L')
  show ?thesis
  proof (cases R)
    case Nil
    from pass_first_right_empty[OF assms[unfolded Cons Nil]] obtain s' where
      "ctl s' = (L', [], [t], [], 0, False, True)" "Old_pairings s = Old_pairings s'"
      by blast
    with right_gone[of s' L' "[]" "[t]" 0] Nil show ?thesis
      by (simp add: all_pairings_def)
  next
    case r: (Cons r R')
    from pass_first_pair[OF assms[unfolded Cons r]] obtain s' where
      s': "ctl s' = (L', R', [t], [r], 0, False, False)" "cfg s' = cfg s"
        "Old_pairings s = (0, 0, join_matches s t r) # Old_pairings s'"
      by blast
    from left_pulling[OF s'(1)]
    have "Old_pairings s' =
       pair_row s 0 r (enumerate (Suc 0) L') @
       concat (map (\<lambda>(j, r). pair_row s j r (enumerate 0 (t # L'))) (enumerate 1 R'))"
      by (simp add: pair_row_cfg[OF s'(2)])
    with s'(3) Cons r show ?thesis by (simp add: all_pairings_def)
  qed
qed

lemma map_enumerate_nth:
  "map (\<lambda>(i, x). f i x) (enumerate 0 xs) = map (\<lambda>i. f i (xs ! i)) [0..<length xs]"
  by (rule nth_equalityI) (simp_all add: nth_enumerate_eq)

lemma all_pairings_by_index:
  "all_pairings s L R =
     concat (map (\<lambda>j. map (\<lambda>i. (i, j, join_matches s (L ! i) (R ! j))) [0..<length L])
       [0..<length R])"
  by (simp add: all_pairings_def pair_row_def map_enumerate_nth)

lemma ctl_fresh_executor:
  "ctl (fresh_executor l r p jt dbg) = (remaining_tiles l, remaining_tiles r, [], [], 0, False, False)"
  by (simp add: ctl_def fresh_executor_def)

text \<open>
  In \<open>Old_DExecute\<close>, the materializing loop, a run on a fresh executor hands the
  matcher every right batch, in the order of arrival, with every left batch in the order
  of arrival: each pair of a left and a right batch exactly once, with no other pairing
  and no fault, whatever the two finite batch sequences, the predicate, the join type and
  the build are; and on each pair of batches the matcher builds the list of the accepted
  row pairs.
\<close>

lemma Old_DExecute_pairs_every_batch_once:
  "Old_pairings (fresh_executor l r p jt dbg) =
     concat (map (\<lambda>j. map (\<lambda>i. (i, j,
                join_matches (fresh_executor l r p jt dbg)
                  (remaining_tiles l ! i) (remaining_tiles r ! j)))
              [0..<length (remaining_tiles l)])
       [0..<length (remaining_tiles r)])"
  using Old_pairings_fresh[OF ctl_fresh_executor, of l r p jt dbg]
  by (simp only: all_pairings_by_index)

definition accept_all :: join_predicate where
  "accept_all = \<lparr>GetLeft = Some (TupleValueExpression 0), Evaluate = (\<lambda>l r. Is_True)\<rparr>"

definition fixed_right_executor :: executor where
  "fixed_right_executor =
     fresh_executor (batch_source PLAN_NODE_TYPE_SEQSCAN (\<lambda>k. [[(True, [5])]]))
       (batch_source PLAN_NODE_TYPE_INDEXSCAN (\<lambda>k. [[(True, [1])], [(True, [2])]]))
       (Some accept_all) JOIN_TYPE_INNER False"

lemma Old_pairings_fixed_right_executor:
  "Old_pairings fixed_right_executor = [(0, 0, [(0, 0)]), (0, 1, [(0, 0)])]"
proof -
  have "Old_pairings fixed_right_executor =
     concat (map (\<lambda>j. map (\<lambda>i. (i, j,
                join_matches fixed_right_executor
                  (remaining_tiles (batch_source PLAN_NODE_TYPE_SEQSCAN (\<lambda>k. [[(True, [5])]])) ! i)
                  (remaining_tiles (batch_source PLAN_NODE_TYPE_INDEXSCAN
                      (\<lambda>k. [[(True, [1])], [(True, [2])]])) ! j)))
              [0..<length (remaining_tiles (batch_source PLAN_NODE_TYPE_SEQSCAN (\<lambda>k. [[(True, [5])]])))])
       [0..<length (remaining_tiles (batch_source PLAN_NODE_TYPE_INDEXSCAN
                      (\<lambda>k. [[(True, [1])], [(True, [2])]])))])"
    unfolding fixed_right_executor_def by (rule Old_DExecute_pairs_every_batch_once)
  also have "\<dots> = [(0, 0, [(0, 0)]), (0, 1, [(0, 0)])]"
    by code_simp
  finally show ?thesis .
qed

text \<open>
  A call of \<open>Old_DExecute\<close> and the pairings of the run. The call goes through
  pairings on which the matcher accepts no row pair, and ends with the first pairing that
  has an accepted row pair, which it returns, or in the outer-completion emitter; the run
  goes on from the executor the call leaves.
\<close>

fun returned_pairing :: "join_output option \<Rightarrow> (nat \<times> nat \<times> (oid \<times> oid) list) list" where
  "returned_pairing (Some (Joined_Tile l r b)) = [(l, r, b)]"
| "returned_pairing (Some (Left_Padded k rows)) = []"
| "returned_pairing (Some (Right_Padded k rows)) = []"
| "returned_pairing None = []"

lemma Old_pairings_Return:
  assumes "\<not> (left_child_done s \<and> right_child_done s)" "Old_DExecute_body s = Return out s'"
  shows "Old_pairings s = returned_pairing out @ Old_pairings s'"
proof -
  from assms(1) have nd: "(left_child_done s \<and> right_child_done s) = False" by simp
  show ?thesis
  proof (cases out)
    case None
    with assms(2) show ?thesis by (subst Old_pairings.simps) (simp add: nd)
  next
    case (Some a)
    with assms(2) show ?thesis by (subst Old_pairings.simps) (cases a; simp add: nd)
  qed
qed

lemma Old_DExecute_pairings:
  assumes "Old_DExecute s = Inr (out, s')"
  shows "\<exists>skipped. Old_pairings s =
           map (\<lambda>(l, r). (l, r, [])) skipped @ returned_pairing out @ Old_pairings s'"
  using assms
proof (induction s rule: Old_DExecute.induct)
  case (1 s)
  show ?case
  proof (cases "left_child_done s \<and> right_child_done s")
    case True
    then have b: "Old_DExecute_body s = return_BuildOuterJoinOutput s"
      by (simp add: Old_DExecute_body_def)
    with 1(2) have o: "out = fst (BuildOuterJoinOutput s)" "s' = snd (BuildOuterJoinOutput s)"
      by (subst (asm) Old_DExecute.simps, simp add: return_BuildOuterJoinOutput_eq)+
    have "returned_pairing out = []"
    proof (cases out)
      case None
      then show ?thesis by simp
    next
      case (Some a)
      show ?thesis
      proof (cases a)
        case (Joined_Tile l r b)
        with Some o(1) BuildOuterJoinOutput_not_Joined[of s l r b] show ?thesis by simp
      qed (simp_all add: Some)
    qed
    moreover from o(2) True BuildOuterJoinOutput_flags[of s] have "Old_pairings s' = []"
      by (simp add: Old_pairings_done)
    moreover from True have "Old_pairings s = []" by (simp add: Old_pairings_done)
    ultimately have "Old_pairings s =
        map (\<lambda>(l, r). (l, r, [])) [] @ returned_pairing out @ Old_pairings s'"
      by simp
    then show ?thesis by blast
  next
    case False
    show ?thesis
    proof (cases "Old_DExecute_body s")
      case (Fault f)
      with 1(2) show ?thesis by (subst (asm) Old_DExecute.simps) simp
    next
      case (Return out1 s1)
      with 1(2) have "out1 = out" "s1 = s'" by (subst (asm) Old_DExecute.simps, simp)+
      with Old_pairings_Return[OF False Return]
      have "Old_pairings s =
          map (\<lambda>(l, r). (l, r, [])) [] @ returned_pairing out @ Old_pairings s'"
        by simp
      then show ?thesis by blast
    next
      case (Continue s1)
      with 1(2) have "Old_DExecute s1 = Inr (out, s')" by (subst (asm) Old_DExecute.simps) simp
      from 1(1)[OF Continue this] obtain skipped where
        sk: "Old_pairings s1 =
               map (\<lambda>(l, r). (l, r, [])) skipped @ returned_pairing out @ Old_pairings s'"
        by blast
      from False have nd: "(left_child_done s \<and> right_child_done s) = False" by simp
      from Continue have "Old_pairings s =
          (left_result_itr s1, length (right_result_tiles s1) - 1, []) # Old_pairings s1"
        by (subst Old_pairings.simps) (simp add: nd)
      with sk have "Old_pairings s =
          map (\<lambda>(l, r). (l, r, []))
            ((left_result_itr s1, length (right_result_tiles s1) - 1) # skipped)
            @ returned_pairing out @ Old_pairings s'"
        by simp
      then show ?thesis by blast
    qed
  qed
qed

text \<open>
  The batches that successive successful calls of \<open>Old_DExecute\<close> return and the
  executor they leave. The joined batches among them are the pairings of the run that
  have an accepted row pair, in the order of the run.
\<close>

fun Old_successive_calls :: "nat \<Rightarrow> executor \<Rightarrow> join_output list" where
  "Old_successive_calls 0 s = []"
| "Old_successive_calls (Suc n) s =
     (case Old_DExecute s of
        Inr (Some out, s') \<Rightarrow> out # Old_successive_calls n s'
      | _ \<Rightarrow> [])"

fun Old_state_after :: "nat \<Rightarrow> executor \<Rightarrow> executor option" where
  "Old_state_after 0 s = Some s"
| "Old_state_after (Suc n) s =
     (case Old_DExecute s of
        Inr (Some out, s') \<Rightarrow> Old_state_after n s'
      | _ \<Rightarrow> None)"

definition has_match :: "nat \<times> nat \<times> (oid \<times> oid) list \<Rightarrow> bool" where
  "has_match e \<longleftrightarrow> snd (snd e) \<noteq> []"

lemma Old_successive_calls_pairings:
  assumes "Old_state_after n s = Some s'"
  shows "filter has_match (Old_pairings s) =
           filter has_match (concat (map (\<lambda>out. returned_pairing (Some out)) (Old_successive_calls n s)))
             @ filter has_match (Old_pairings s')"
  using assms
proof (induction n arbitrary: s)
  case 0
  then show ?case by simp
next
  case (Suc n)
  from Suc.prems obtain out s1 where
    c: "Old_DExecute s = Inr (Some out, s1)" and a: "Old_state_after n s1 = Some s'"
    by (auto split: sum.splits prod.splits option.splits)
  from Old_DExecute_pairings[OF c] obtain skipped where
    sk: "Old_pairings s =
           map (\<lambda>(l, r). (l, r, [])) skipped @ returned_pairing (Some out) @ Old_pairings s1"
    by blast
  have "filter has_match (map (\<lambda>(l, r). (l, r, [])) skipped) = []"
    by (induction skipped) (auto simp: has_match_def)
  with sk Suc.IH[OF a] c show ?case by simp
qed

text \<open>
  C1 does not hold of \<open>DExecute\<close>. The left child yields one batch of one row, the right
  child the two batches \<open>[1]\<close> and \<open>[2]\<close> under every bound, and the predicate accepts every
  pair. The first call of \<open>DExecute\<close> buffers both right batches and pairs the left batch
  with the last one only; the second call, after the left child has reported exhaustion,
  pulls both right batches again and pairs the last one again. The combination of the left
  row with the row of the first right batch (buffer positions 0 and 2) is never
  evaluated, the one with the row of the second right batch (positions 1 and 3) is
  evaluated twice. On the same input the calls of \<open>Old_DExecute\<close> buffer each right batch
  once and return each of the two combinations once.
\<close>

theorem DExecute_skips_and_repeats_right_batches:
  "successive_calls 5 fixed_right_executor =
     [Joined_Tile 0 1 [(0, 0)], Joined_Tile 0 3 [(0, 0)]] \<and>
   map_option right_result_tiles (state_after 2 fixed_right_executor) =
     Some [[(True, [1])], [(True, [2])], [(True, [1])], [(True, [2])]] \<and>
   map_option (\<lambda>s. (left_child_done s, right_child_done s)) (state_after 2 fixed_right_executor) =
     Some (True, True) \<and>
   Old_successive_calls 5 fixed_right_executor =
     [Joined_Tile 0 0 [(0, 0)], Joined_Tile 0 1 [(0, 0)]] \<and>
   map_option right_result_tiles (Old_state_after 2 fixed_right_executor) =
     Some [[(True, [1])], [(True, [2])]]"
  by code_simp

section \<open>No call returns an empty batch\<close>

fun output_rows :: "join_output \<Rightarrow> nat" where
  "output_rows (Joined_Tile l r b) = length b"
| "output_rows (Left_Padded k rows) = length rows"
| "output_rows (Right_Padded k rows) = length rows"

text \<open>
  The executors between the calls of a run of \<open>DExecute\<close>: the two exhaustion flags
  agree, right tiles are buffered only when a left tile is, and the first buffered left
  tile has a visible row.
\<close>

definition probe_ready :: "executor \<Rightarrow> bool" where
  "probe_ready s \<longleftrightarrow>
     left_child_done s = right_child_done s \<and>
     (left_result_tiles s = [] \<longrightarrow> right_result_tiles s = []) \<and>
     (left_result_tiles s \<noteq> [] \<longrightarrow> tile_rows (hd (left_result_tiles s)) \<noteq> [])"

definition good_output :: "join_output option \<Rightarrow> bool" where
  "good_output out = (case out of None \<Rightarrow> True | Some b \<Rightarrow> 0 < output_rows b)"

definition probed :: "executor \<Rightarrow> executor \<Rightarrow> bool" where
  "probed s s' \<longleftrightarrow>
     children0 s' = children0 s \<and> left_result_tiles s' = left_result_tiles s \<and>
     left_result_itr s' = left_result_itr s \<and> left_child_done s' = left_child_done s \<and>
     asserts_enabled s' = asserts_enabled s \<and> predicate s' = predicate s \<and>
     (right_child_done s' \<longrightarrow> right_child_done s \<or> left_child_done s) \<and>
     (right_child_done s \<longrightarrow> right_child_done s') \<and>
     (right_result_tiles s \<noteq> [] \<longrightarrow> right_result_tiles s' \<noteq> [])"

lemma probed_refl [simp]: "probed s s"
  by (simp add: probed_def)

lemma probed_trans: "probed s s' \<Longrightarrow> probed s' s'' \<Longrightarrow> probed s s''"
  by (auto simp: probed_def)

lemma good_BuildOuterJoinOutput: "good_output (fst (BuildOuterJoinOutput s))"
proof (cases "fst (BuildOuterJoinOutput s)")
  case None
  then show ?thesis by (simp add: good_output_def)
next
  case (Some out)
  then have "BuildOuterJoinOutput s = (Some out, snd (BuildOuterJoinOutput s))"
    by (metis prod.collapse)
  from BuildOuterJoinOutput_Some[OF this] Some show ?thesis
    by (auto simp: good_output_def)
qed

lemma probe_ready_cursors [simp]:
  "probe_ready (s\<lparr>left_matching_idx := a, right_matching_idx := b\<rparr>) = probe_ready s"
  by (simp add: probe_ready_def)

lemma probe_ready_BuildOuterJoinOutput:
  "probe_ready (snd (BuildOuterJoinOutput s)) = probe_ready s"
  using BuildOuterJoinOutput_cursors[of s] by auto

lemma lookup_right_buffered:
  assumes "left_result_tiles s \<noteq> []"
  shows "lookup_right s =
     (if \<not> left_child_done s then
        if GetPlanNodeType (children1 s) = PLAN_NODE_TYPE_INDEXSCAN
        then Continue (buffer_right_tiles (remaining_tiles (children1 s))
               (s\<lparr>children1 := (children1 s)\<lparr>scan_pending := None\<rparr>\<rparr>))
        else Fault Bad_Downcast
      else Continue (buffer_right_tiles (remaining_tiles (children1 s))
             (s\<lparr>children1 := (children1 s)\<lparr>scan_pending := Some []\<rparr>, right_child_done := True\<rparr>)))"
  using assms lookup_right_left_pending[OF _ refl, of s] lookup_right_left_done[OF _ _ refl, of s]
  by simp

lemma lookup_right_probed:
  assumes "left_result_tiles s \<noteq> []"
  shows "lookup_right s = Continue s' \<Longrightarrow> probed s s' \<and> (left_child_done s \<longrightarrow> right_child_done s')"
    and "lookup_right s \<noteq> Return out s'"
  using assms by (auto simp: lookup_right_buffered probed_def buffer_right_tiles_def split: if_splits)

lemma probed_children1 [simp]: "probed s (s\<lparr>children1 := c\<rparr>)"
  by (simp add: probed_def)

lemma probe_left_row_Continue:
  assumes "left_result_tiles s \<noteq> []" "probe_left_row lt row s = Continue s'"
  shows "probed s s' \<and> (left_child_done s \<longrightarrow> right_child_done s')"
proof -
  from assms(2) obtain c where lr: "lookup_right (s\<lparr>children1 := c\<rparr>) = Continue s'"
    by (auto simp: probe_left_row_def Let_def return_BuildOuterJoinOutput_eq
        split: option.splits expression.splits prod.splits bool.splits if_splits)
  have "left_result_tiles (s\<lparr>children1 := c\<rparr>) \<noteq> []" using assms(1) by simp
  from lookup_right_probed(1)[OF this lr] probed_trans[OF probed_children1[of s c]]
  show ?thesis by auto
qed

lemma probe_left_row_Return:
  assumes "left_result_tiles s \<noteq> []" "probe_left_row lt row s = Return out s'"
  shows "out = None \<or>
         (\<exists>c. right_child_done s \<and> out = fst (BuildOuterJoinOutput (s\<lparr>children1 := c\<rparr>)) \<and>
              s' = snd (BuildOuterJoinOutput (s\<lparr>children1 := c\<rparr>)))"
proof -
  have nr: "lookup_right (s\<lparr>children1 := c\<rparr>) \<noteq> Return out s'" for c
    using assms(1) by (intro lookup_right_probed(2)) simp
  from assms(2) nr show ?thesis
    by (simp add: probe_left_row_def Let_def return_BuildOuterJoinOutput_eq
        split: option.splits expression.splits prod.splits bool.splits if_splits) blast+
qed


lemma probe_rows_Continue:
  assumes "left_result_tiles s \<noteq> []" "probe_rows lt rows s = Continue s'"
  shows "probed s s' \<and> (left_child_done s \<and> rows \<noteq> [] \<longrightarrow> right_child_done s')"
  using assms
proof (induction rows arbitrary: s)
  case Nil
  then show ?case by simp
next
  case (Cons row rows)
  from Cons.prems(2) obtain s1 where
    p1: "probe_left_row lt row s = Continue s1" and pr: "probe_rows lt rows s1 = Continue s'"
    by (auto split: iteration.splits)
  from probe_left_row_Continue[OF Cons.prems(1) p1]
  have a: "probed s s1" "left_child_done s \<longrightarrow> right_child_done s1" by simp_all
  then have ne: "left_result_tiles s1 \<noteq> []" using Cons.prems(1) by (simp add: probed_def)
  from Cons.IH[OF ne pr] have b: "probed s1 s'" by simp
  from a b show ?case by (auto simp: probed_def)
qed

lemma probe_rows_Return:
  assumes "left_result_tiles s \<noteq> []" "probe_rows lt rows s = Return out s'"
  shows "out = None \<or>
         (\<exists>s''. probed s s'' \<and> right_child_done s'' \<and> out = fst (BuildOuterJoinOutput s'') \<and>
                s' = snd (BuildOuterJoinOutput s''))"
  using assms
proof (induction rows arbitrary: s)
  case Nil
  then show ?case by simp
next
  case (Cons row rows)
  show ?case
  proof (cases "probe_left_row lt row s")
    case (Fault f)
    with Cons.prems(2) show ?thesis by simp
  next
    case (Return out1 s1)
    with Cons.prems(2) have e: "out1 = out" "s1 = s'" by simp_all
    from probe_left_row_Return[OF Cons.prems(1) Return] e
    consider "out = None"
      | c where "right_child_done s" "out = fst (BuildOuterJoinOutput (s\<lparr>children1 := c\<rparr>))"
          "s' = snd (BuildOuterJoinOutput (s\<lparr>children1 := c\<rparr>))"
      by blast
    then show ?thesis
    proof cases
      case 1
      then show ?thesis by simp
    next
      case 2
      have "probed s (s\<lparr>children1 := c\<rparr>)" "right_child_done (s\<lparr>children1 := c\<rparr>)"
        using 2(1) by simp_all
      with 2(2,3) show ?thesis by blast
    qed
  next
    case (Continue s1)
    with Cons.prems(2) have pr: "probe_rows lt rows s1 = Return out s'" by simp
    from probe_left_row_Continue[OF Cons.prems(1) Continue] have a: "probed s s1" by simp
    then have ne: "left_result_tiles s1 \<noteq> []" using Cons.prems(1) by (simp add: probed_def)
    from Cons.IH[OF ne pr] a show ?thesis by (blast intro: probed_trans)
  qed
qed

lemma build_join_tile_good:
  "build_join_tile lt rt s = Return out s' \<Longrightarrow> good_output out \<and> out \<noteq> None"
  by (auto simp: build_join_tile_def good_output_def split: prod.splits if_splits)

lemma new_join_Continue:
  "new_join adv lt s = Continue s' \<Longrightarrow> same_control s s' \<and> right_result_tiles s \<noteq> []"
  by (auto simp: new_join_def return_BuildOuterJoinOutput_eq split: if_splits
      dest: build_join_tile_Continue)

lemma new_join_Return:
  assumes "new_join adv lt s = Return out s'"
  shows "(right_child_done s \<and> right_result_tiles s = [] \<and>
            out = fst (BuildOuterJoinOutput s) \<and> s' = snd (BuildOuterJoinOutput s)) \<or>
         (same_control s s' \<and> right_result_tiles s \<noteq> [] \<and> good_output out \<and> out \<noteq> None)"
  using assms
  by (auto simp: new_join_def return_BuildOuterJoinOutput_eq split: if_splits
      dest: build_join_tile_Return build_join_tile_good)

definition left_remaining :: "executor \<Rightarrow> nat" where
  "left_remaining s =
     length (remaining_tiles (children0 s)) + (if left_child_done s then 0 else 1)"

lemma probe_ready_same_control:
  "same_control s s' \<Longrightarrow> probe_ready s' = probe_ready s"
  using same_controlD[of s s'] by (simp add: probe_ready_def)

lemma left_remaining_same_control:
  "same_control s s' \<Longrightarrow> left_remaining s' = left_remaining s"
  using same_controlD[of s s'] by (simp add: left_remaining_def)

lemma probe_ready_probed:
  assumes "probed s s'" "left_result_tiles s \<noteq> []" "tile_rows (hd (left_result_tiles s)) \<noteq> []"
    and "left_child_done s' = right_child_done s'"
  shows "probe_ready s'"
  using assms by (simp add: probe_ready_def probed_def)

lemma left_remaining_probed: "probed s s' \<Longrightarrow> left_remaining s' = left_remaining s"
  by (simp add: probed_def left_remaining_def)

lemma DExecute_body_not_done:
  "\<not> (left_child_done s \<and> right_child_done s) \<Longrightarrow>
     DExecute_body s =
       (case pick_left s of
          Inl f \<Rightarrow> Fault f
        | Inr (advance_right_child, s1) \<Rightarrow>
            if left_result_itr s1 \<ge> length (left_result_tiles s1) then Fault Out_Of_Range
            else
              let left_tile = left_result_tiles s1 ! left_result_itr s1 in
              (case probe_rows left_tile (tile_rows left_tile) s1 of
                 Continue s2 \<Rightarrow> new_join advance_right_child left_tile s2
               | r \<Rightarrow> r))"
  by (auto simp: DExecute_body_def)

lemma DExecute_body_left_exhausted:
  assumes inv: "probe_ready s" and nl: "\<not> left_child_done s"
    and rem: "remaining_tiles (children0 s) = []"
  shows "(DExecute_body s = Continue s' \<longrightarrow> probe_ready s' \<and> left_remaining s' < left_remaining s) \<and>
         (DExecute_body s = Return out s' \<longrightarrow> good_output out \<and> (out \<noteq> None \<longrightarrow> probe_ready s'))"
proof (cases "left_result_tiles s = []")
  case True
  let ?s1 = "s\<lparr>children0 := (children0 s)\<lparr>scan_pending := Some []\<rparr>, left_child_done := True,
         left_result_itr := 0\<rparr>"
  have "pick_left s = Inr (True, ?s1)" using nl rem by (rule pick_left_exhausted)
  with True nl have "DExecute_body s = Fault Out_Of_Range"
    by (simp add: DExecute_body_not_done)
  then show ?thesis by simp
next
  case False
  let ?s1 = "s\<lparr>children0 := (children0 s)\<lparr>scan_pending := Some []\<rparr>, left_child_done := True,
         left_result_itr := 0\<rparr>"
  let ?lt = "hd (left_result_tiles s)"
  have pl: "pick_left s = Inr (True, ?s1)" using nl rem by (rule pick_left_exhausted)
  have lt: "left_result_tiles ?s1 ! left_result_itr ?s1 = ?lt"
    using False by (simp add: hd_conv_nth)
  have rows: "tile_rows ?lt \<noteq> []" using inv False by (simp add: probe_ready_def)
  have ne1: "left_result_tiles ?s1 \<noteq> []" using False by simp
  have body: "DExecute_body s =
      (case probe_rows ?lt (tile_rows ?lt) ?s1 of Continue s2 \<Rightarrow> new_join True ?lt s2 | r \<Rightarrow> r)"
    using nl pl False lt by (simp add: DExecute_body_not_done Let_def)
  have hd1: "tile_rows (hd (left_result_tiles ?s1)) \<noteq> []" using rows by simp
  have lr1: "left_remaining ?s1 < left_remaining s"
    using nl rem by (simp add: left_remaining_def remaining_tiles_def)
  show ?thesis
  proof (cases "probe_rows ?lt (tile_rows ?lt) ?s1")
    case (Fault f)
    with body show ?thesis by simp
  next
    case (Return out1 s1')
    with body have b: "DExecute_body s = Return out1 s1'" by simp
    from probe_rows_Return[OF ne1 Return]
    consider "out1 = None"
      | s'' where "probed ?s1 s''" "right_child_done s''" "out1 = fst (BuildOuterJoinOutput s'')"
          "s1' = snd (BuildOuterJoinOutput s'')"
      by blast
    then have "good_output out1 \<and> (out1 \<noteq> None \<longrightarrow> probe_ready s1')"
    proof cases
      case 1
      then show ?thesis by (simp add: good_output_def)
    next
      case 2
      have "left_child_done s'' = right_child_done s''"
        using 2(1,2) by (simp add: probed_def)
      from probe_ready_probed[OF 2(1) ne1 hd1 this] 2(3,4) show ?thesis
        by (simp add: good_BuildOuterJoinOutput probe_ready_BuildOuterJoinOutput)
    qed
    with b show ?thesis by auto
  next
    case (Continue s2)
    with body have b: "DExecute_body s = new_join True ?lt s2" by simp
    from probe_rows_Continue[OF ne1 Continue] rows
    have p: "probed ?s1 s2" and rd: "right_child_done s2" by simp_all
    have fl: "left_child_done s2 = right_child_done s2" using p rd by (simp add: probed_def)
    have r2: "probe_ready s2" by (rule probe_ready_probed[OF p ne1 hd1 fl])
    have l2: "left_remaining s2 < left_remaining s"
      using left_remaining_probed[OF p] lr1 by simp
    have c: "new_join True ?lt s2 = Continue s' \<Longrightarrow>
        probe_ready s' \<and> left_remaining s' < left_remaining s"
      using r2 l2 by (auto dest!: new_join_Continue
          simp: probe_ready_same_control left_remaining_same_control)
    have r: "new_join True ?lt s2 = Return out s' \<Longrightarrow>
        good_output out \<and> (out \<noteq> None \<longrightarrow> probe_ready s')"
      using r2 by (auto dest!: new_join_Return
          simp: probe_ready_same_control good_BuildOuterJoinOutput probe_ready_BuildOuterJoinOutput)
    from b c r show ?thesis by simp
  qed
qed

lemma DExecute_body_left_pull:
  assumes inv: "probe_ready s" and nl: "\<not> left_child_done s"
    and rem: "remaining_tiles (children0 s) = t # Lr"
  shows "(DExecute_body s = Continue s' \<longrightarrow> probe_ready s' \<and> left_remaining s' < left_remaining s) \<and>
         (DExecute_body s = Return out s' \<longrightarrow> good_output out \<and> (out \<noteq> None \<longrightarrow> probe_ready s'))"
proof -
  let ?s1 = "s\<lparr>children0 := (children0 s)\<lparr>scan_pending := Some Lr\<rparr>,
         left_result_tiles := left_result_tiles s @ [t],
         left_matched := left_matched s @ [replicate (length t) False],
         left_result_itr := length (left_result_tiles s)\<rparr>"
  have nr: "\<not> right_child_done s" using inv nl by (simp add: probe_ready_def)
  have pl: "pick_left s = Inr (False, ?s1)" using nl rem by (rule pick_left_pull)
  have ne1: "left_result_tiles ?s1 \<noteq> []" by simp
  have body: "DExecute_body s =
      (case probe_rows t (tile_rows t) ?s1 of Continue s2 \<Rightarrow> new_join False t s2 | r \<Rightarrow> r)"
    using nl pl by (simp add: DExecute_body_not_done Let_def)
  have lr1: "left_remaining ?s1 < left_remaining s"
    using nl rem by (simp add: left_remaining_def remaining_tiles_def)
  show ?thesis
  proof (cases "probe_rows t (tile_rows t) ?s1")
    case (Fault f)
    with body show ?thesis by simp
  next
    case (Return out1 s1')
    with body have b: "DExecute_body s = Return out1 s1'" by simp
    from probe_rows_Return[OF ne1 Return] nl nr have "out1 = None"
      by (auto simp: probed_def)
    with b show ?thesis by (auto simp: good_output_def)
  next
    case (Continue s2)
    with body have b: "DExecute_body s = new_join False t s2" by simp
    from probe_rows_Continue[OF ne1 Continue] have p: "probed ?s1 s2" by simp
    have fl: "\<not> left_child_done s2" "\<not> right_child_done s2"
      using p nl nr by (auto simp: probed_def)
    have l2: "left_remaining s2 < left_remaining s"
      using left_remaining_probed[OF p] lr1 by simp
    have r2: "probe_ready s2" if "right_result_tiles s2 \<noteq> []"
    proof -
      have "tile_rows (hd (left_result_tiles ?s1)) \<noteq> []"
      proof (cases "left_result_tiles s = []")
        case True
        then have e: "right_result_tiles ?s1 = []" using inv by (simp add: probe_ready_def)
        have "tile_rows t \<noteq> []"
        proof
          assume "tile_rows t = []"
          with Continue have "s2 = ?s1" by simp
          with e that show False by simp
        qed
        with True show ?thesis by simp
      next
        case False
        with inv show ?thesis by (simp add: probe_ready_def)
      qed
      from probe_ready_probed[OF p ne1 this] fl show ?thesis by simp
    qed
    have c: "new_join False t s2 = Continue s' \<Longrightarrow>
        probe_ready s' \<and> left_remaining s' < left_remaining s"
      using r2 l2 by (auto dest!: new_join_Continue
          simp: probe_ready_same_control left_remaining_same_control)
    have r: "new_join False t s2 = Return out s' \<Longrightarrow>
        good_output out \<and> (out \<noteq> None \<longrightarrow> probe_ready s')"
      using r2 fl by (auto dest!: new_join_Return simp: probe_ready_same_control)
    from b c r show ?thesis by simp
  qed
qed

lemma DExecute_body_ready:
  assumes "probe_ready s"
  shows "(DExecute_body s = Continue s' \<longrightarrow> probe_ready s' \<and> left_remaining s' < left_remaining s) \<and>
         (DExecute_body s = Return out s' \<longrightarrow> good_output out \<and> (out \<noteq> None \<longrightarrow> probe_ready s'))"
proof (cases "left_child_done s")
  case True
  with assms have "right_child_done s" by (simp add: probe_ready_def)
  with True have "DExecute_body s = return_BuildOuterJoinOutput s" by (simp add: DExecute_body_def)
  with assms show ?thesis
    using good_BuildOuterJoinOutput[of s] probe_ready_BuildOuterJoinOutput[of s]
    by (auto simp: return_BuildOuterJoinOutput_eq)
next
  case False
  show ?thesis
  proof (cases "remaining_tiles (children0 s)")
    case Nil
    from DExecute_body_left_exhausted[OF assms False Nil] show ?thesis .
  next
    case (Cons t Lr)
    from DExecute_body_left_pull[OF assms False Cons] show ?thesis .
  qed
qed

lemma DExecute_returns:
  assumes "probe_ready s"
  shows "\<exists>r. DExecute s = Some r \<and>
           (\<forall>out s'. r = Inr (out, s') \<longrightarrow> good_output out \<and> (out \<noteq> None \<longrightarrow> probe_ready s'))"
  using assms
proof (induction "left_remaining s" arbitrary: s rule: less_induct)
  case less
  show ?case
  proof (cases "DExecute_body s")
    case (Fault f)
    then have "DExecute s = Some (Inl f)" by (subst DExecute.simps) simp
    then show ?thesis by simp
  next
    case (Return out s')
    then have "DExecute s = Some (Inr (out, s'))" by (subst DExecute.simps) simp
    moreover from DExecute_body_ready[OF less.prems, where s'=s' and out=out] Return
    have "good_output out \<and> (out \<noteq> None \<longrightarrow> probe_ready s')" by simp
    ultimately show ?thesis by simp
  next
    case (Continue s')
    then have e: "DExecute s = DExecute s'" by (subst DExecute.simps) simp
    from DExecute_body_ready[OF less.prems, where s'=s' and out=None] Continue
    have "probe_ready s'" "left_remaining s' < left_remaining s" by simp_all
    from less.hyps[OF this(2) this(1)] e show ?thesis by simp
  qed
qed

lemma old_pick_right_Return_good:
  "old_pick_right adv s = Return out s' \<Longrightarrow> good_output out"
  using good_BuildOuterJoinOutput
  by (auto simp: old_pick_right_def return_BuildOuterJoinOutput_eq Let_def
      split: if_splits prod.splits option.splits)

lemma old_join_Return_good: "old_join s = Return out s' \<Longrightarrow> good_output out"
  by (auto simp: old_join_def split: if_splits dest: build_join_tile_good)

lemma Old_body_Return_good:
  assumes "Old_DExecute_body s = Return out s'"
  shows "good_output out"
proof (cases "left_child_done s \<and> right_child_done s")
  case True
  with assms good_BuildOuterJoinOutput[of s] show ?thesis
    by (auto simp: Old_DExecute_body_def return_BuildOuterJoinOutput_eq)
next
  case False
  with assms show ?thesis
    by (auto simp: Old_body_not_done split: sum.splits prod.splits iteration.splits
        dest: old_pick_right_Return_good old_join_Return_good)
qed

lemma Old_DExecute_good: "Old_DExecute s = Inr (out, s') \<Longrightarrow> good_output out"
proof (induction s rule: Old_DExecute.induct)
  case (1 s)
  show ?case
  proof (cases "Old_DExecute_body s")
    case (Fault f)
    with 1(2) show ?thesis by (subst (asm) Old_DExecute.simps) simp
  next
    case (Return out1 s1)
    with 1(2) have "out1 = out" by (subst (asm) Old_DExecute.simps) simp
    with Old_body_Return_good[OF Return] show ?thesis by simp
  next
    case (Continue s1)
    with 1(2) have "Old_DExecute s1 = Inr (out, s')" by (subst (asm) Old_DExecute.simps) simp
    from 1(1)[OF Continue this] show ?thesis .
  qed
qed

lemma build_join_tile_no_match:
  "join_matches s lt rt = [] \<Longrightarrow> \<exists>s'. build_join_tile lt rt s = Continue s'"
  by (simp add: build_join_tile_def join_outer_loop_eq join_matches_def)

lemma probe_ready_fresh_executor: "probe_ready (fresh_executor l r p jt dbg)"
  by (simp add: probe_ready_def fresh_executor_def)

text \<open>
  A call of \<open>DExecute\<close> on an executor of a run (the fresh executor is one, and every
  call that returns a batch leaves one) comes to an end: with a fault of the code, with
  false, or with a batch, and the batch then has at least one row. The same holds for
  the batches \<open>Old_DExecute\<close> returns, from any executor. A pair of tiles on which the
  matcher accepts no row pair is not returned: the pass ends in \<open>Continue\<close>.
\<close>

lemma call_never_returns_empty_batch:
  assumes "probe_ready s"
  shows "(\<exists>r. DExecute s = Some r \<and>
            (\<forall>out s'. r = Inr (Some out, s') \<longrightarrow> 0 < output_rows out \<and> probe_ready s')) \<and>
         (\<forall>out s'. Old_DExecute t = Inr (Some out, s') \<longrightarrow> 0 < output_rows out) \<and>
         (join_matches u lt rt = [] \<longrightarrow> (\<exists>u'. build_join_tile lt rt u = Continue u'))"
proof -
  from DExecute_returns[OF assms] obtain r where
    r: "DExecute s = Some r"
      "\<forall>out s'. r = Inr (out, s') \<longrightarrow> good_output out \<and> (out \<noteq> None \<longrightarrow> probe_ready s')"
    by blast
  have a: "\<forall>out s'. r = Inr (Some out, s') \<longrightarrow> 0 < output_rows out \<and> probe_ready s'"
    using r(2) by (auto simp: good_output_def)
  have b: "\<forall>out s'. Old_DExecute t = Inr (Some out, s') \<longrightarrow> 0 < output_rows out"
    using Old_DExecute_good[of t] by (auto simp: good_output_def)
  from r(1) a b build_join_tile_no_match[of u lt rt] show ?thesis by blast
qed

lemma call_never_returns_empty_batch_example:
  "\<exists>r. DExecute two_key_executor = Some r \<and>
         (\<forall>out s'. r = Inr (Some out, s') \<longrightarrow> 0 < output_rows out \<and> probe_ready s') \<and>
         map_sum id fst r = Inr (Some (Joined_Tile 0 1 [(1, 0)]))"
proof -
  have pr: "probe_ready two_key_executor"
    unfolding two_key_executor_def by (rule probe_ready_fresh_executor)
  from call_never_returns_empty_batch[OF pr] obtain r where
    r: "DExecute two_key_executor = Some r"
      "\<forall>out s'. r = Inr (Some out, s') \<longrightarrow> 0 < output_rows out \<and> probe_ready s'"
    by blast
  have "map_option (map_sum id fst) (DExecute two_key_executor) =
      Some (Inr (Some (Joined_Tile 0 1 [(1, 0)])))"
    by code_simp
  with r(1) have "map_sum id fst r = Inr (Some (Joined_Tile 0 1 [(1, 0)]))" by simp
  with r show ?thesis by blast
qed

text \<open>
  The executors between the calls of a run of \<open>Old_DExecute\<close>: the right child is
  exhausted, or a right tile is buffered, or the left child has neither been exhausted
  nor produced a tile. From such an executor a call of \<open>Old_DExecute\<close> returns without a
  fault, leaves such an executor, and a batch it returns has at least one row.
\<close>

definition old_ready :: "executor \<Rightarrow> bool" where
  "old_ready s \<longleftrightarrow>
     right_child_done s \<or> right_result_tiles s \<noteq> [] \<or>
     (\<not> left_child_done s \<and> left_result_tiles s = [])"

lemma old_ready_fresh_executor: "old_ready (fresh_executor l r p jt dbg)"
  by (simp add: old_ready_def fresh_executor_def)

lemma old_ready_same_control: "same_control s s' \<Longrightarrow> old_ready s \<Longrightarrow> old_ready s'"
  using same_controlD[of s s'] by (simp add: old_ready_def)

lemma old_ready_BuildOuterJoinOutput:
  "old_ready s \<Longrightarrow> old_ready (snd (BuildOuterJoinOutput s))"
  using BuildOuterJoinOutput_cursors[of s] by (auto simp: old_ready_def)

lemma pick_left_ready:
  assumes "old_ready s" "\<not> (left_child_done s \<and> right_child_done s)"
  shows "\<exists>adv s1. pick_left s = Inr (adv, s1) \<and>
           (adv \<or> right_result_tiles s1 = [] \<and> \<not> right_child_done s1 \<longrightarrow> left_result_itr s1 = 0)"
  using assms
  by (auto simp: old_ready_def pick_left_def Let_def BufferLeftTile_def
      split: prod.splits option.splits)

lemma old_pick_right_no_Fault:
  assumes "adv \<or> right_result_tiles s1 = [] \<and> \<not> right_child_done s1 \<longrightarrow> left_result_itr s1 = 0"
  shows "old_pick_right adv s1 \<noteq> Fault f"
  using assms
  by (auto simp: old_pick_right_def Let_def return_BuildOuterJoinOutput_eq
      split: prod.splits option.splits)

lemma Old_body_no_Fault:
  assumes "old_ready s"
  shows "Old_DExecute_body s \<noteq> Fault f"
proof (cases "left_child_done s \<and> right_child_done s")
  case True
  then show ?thesis by (simp add: Old_DExecute_body_def return_BuildOuterJoinOutput_eq)
next
  case False
  from pick_left_ready[OF assms False] obtain adv s1 where
    pl: "pick_left s = Inr (adv, s1)" and
    m: "adv \<or> right_result_tiles s1 = [] \<and> \<not> right_child_done s1 \<longrightarrow> left_result_itr s1 = 0"
    by blast
  show ?thesis
  proof
    assume a: "Old_DExecute_body s = Fault f"
    show False
    proof (cases "old_pick_right adv s1")
      case (Fault g)
      with old_pick_right_no_Fault[OF m, of g] show False by simp
    next
      case (Return out s2)
      with a pl False show False by (simp add: Old_body_not_done)
    next
      case (Continue s2)
      with a pl False have "old_join s2 = Fault f" by (simp add: Old_body_not_done)
      then have "f = Out_Of_Range" by (auto simp: old_join_def split: if_splits)
      with a Old_body_no_Out_Of_Range[of s] show False by simp
    qed
  qed
qed

lemma Old_body_leaves_ready:
  assumes "old_ready s" "Old_DExecute_body s = Continue s' \<or> Old_DExecute_body s = Return out s'"
  shows "old_ready s'"
proof (cases "left_child_done s \<and> right_child_done s")
  case True
  with assms(2) have "s' = snd (BuildOuterJoinOutput s)"
    by (auto simp: Old_DExecute_body_def return_BuildOuterJoinOutput_eq)
  with old_ready_BuildOuterJoinOutput[OF assms(1)] show ?thesis by simp
next
  case False
  from Old_body_cases[OF False] consider
    (fault) f where "Old_DExecute_body s = Fault f"
  | (pair) adv s1 s2 s'' where "pick_left s = Inr (adv, s1)" "old_pick_right adv s1 = Continue s2"
      "same_control s2 s''"
      "Old_DExecute_body s = Continue s'' \<or> (\<exists>out. Old_DExecute_body s = Return out s'')"
  | (delegated) s1 s2 where "Old_DExecute_body s = return_BuildOuterJoinOutput s2"
      "s2 = s1 \<and> right_child_done s1 \<and> right_result_tiles s1 = [] \<or>
       (\<exists>c. s2 = s1\<lparr>children1 := c, right_child_done := True\<rparr>) \<or>
       (\<exists>c t. s2 = BufferRightTile t (s1\<lparr>children1 := c\<rparr>))"
    by blast
  then show ?thesis
  proof cases
    case fault
    with assms(2) show ?thesis by auto
  next
    case pair
    from pair(4) assms(2) have "s'' = s'" by auto
    moreover from old_pick_right_Continue(1)[OF pair(2)] have "old_ready s2"
      by (simp add: old_ready_def)
    ultimately show ?thesis using pair(3) old_ready_same_control[of s2 s'] by simp
  next
    case delegated
    from delegated(2) have "old_ready s2" by (auto simp: old_ready_def BufferRightTile_def)
    from old_ready_BuildOuterJoinOutput[OF this] delegated(1) assms(2) show ?thesis
      by (auto simp: return_BuildOuterJoinOutput_eq)
  qed
qed

lemma Old_DExecute_ready:
  assumes "old_ready s"
  shows "\<exists>out s'. Old_DExecute s = Inr (out, s') \<and> old_ready s' \<and> good_output out"
  using assms
proof (induction s rule: Old_DExecute.induct)
  case (1 s)
  show ?case
  proof (cases "Old_DExecute_body s")
    case (Fault f)
    with Old_body_no_Fault[OF 1(2), of f] show ?thesis by simp
  next
    case (Return out s')
    then have "Old_DExecute s = Inr (out, s')" by (subst Old_DExecute.simps) simp
    moreover from Old_body_leaves_ready[OF 1(2), of s' out] Return have "old_ready s'" by simp
    moreover from Old_body_Return_good[OF Return] have "good_output out" .
    ultimately show ?thesis by blast
  next
    case (Continue s1)
    then have e: "Old_DExecute s = Old_DExecute s1" by (subst Old_DExecute.simps) simp
    from Old_body_leaves_ready[OF 1(2), of s1] Continue have "old_ready s1" by simp
    from 1(1)[OF Continue this] e show ?thesis by simp
  qed
qed

text \<open>
  The right child has no row at all: an index scan that returns no batch, whatever bound
  is pushed. The left child yields one batch with one row.
\<close>

definition empty_index :: child_executor where
  "empty_index = batch_source PLAN_NODE_TYPE_INDEXSCAN (\<lambda>k. [])"

definition empty_right_executor :: "bool \<Rightarrow> executor" where
  "empty_right_executor dbg =
     fresh_executor (batch_source PLAN_NODE_TYPE_SEQSCAN (\<lambda>k. [[(True, [5])]]))
       empty_index (Some key_equality) JOIN_TYPE_INNER dbg"

text \<open>
  Two left batches with the keys 5 and 7, and a right child that returns the one row
  \<open>(7, 10)\<close> under every bound: the first pair of batches has no accepted row pair, the
  second has one.
\<close>

definition late_match_executor :: executor where
  "late_match_executor =
     fresh_executor (batch_source PLAN_NODE_TYPE_SEQSCAN (\<lambda>k. [[(True, [5])], [(True, [7])]]))
       (batch_source PLAN_NODE_TYPE_INDEXSCAN (\<lambda>k. [[(True, [7, 10])]]))
       (Some key_equality) JOIN_TYPE_INNER False"

lemma projected_fault:
  assumes "map_option (map_sum id fst) x = Some (Inl f)"
  shows "x = Some (Inl f)"
proof (cases x)
  case None
  with assms show ?thesis by simp
next
  case (Some r)
  with assms show ?thesis by (cases r) simp_all
qed

text \<open>
  C2 does not hold of \<open>DExecute\<close>. On an inner join of a left input of one row with an
  empty right input the first call neither returns a batch nor returns false: the probe
  of the left row buffers no right batch, the right child is reset because the left
  child has not yet reported exhaustion, so \<open>right_child_done_\<close> stays unset and the guard
  of lines 333 to 337 does not return, and line 342 reads \<open>right_result_tiles_.back()\<close>
  of the empty buffer, with assertions compiled in or not. On the same input the first
  call of \<open>Old_DExecute\<close> marks the right child exhausted and returns false through the
  outer-completion emitter. The other half of the claim is what both loops do: in
  \<open>late_match_executor\<close> the first pair of batches has no accepted row pair, and the
  first call does not return on it but goes round the loop and returns the batch of the
  second left batch.
\<close>

theorem empty_right_input_call_faults:
  "DExecute (empty_right_executor False) = Some (Inl Out_Of_Range) \<and>
   DExecute (empty_right_executor True) = Some (Inl Out_Of_Range) \<and>
   map_sum id (\<lambda>(out, s). (out, left_child_done s, right_child_done s))
     (Old_DExecute (empty_right_executor False)) = Inr (None, False, True) \<and>
   map_option (map_sum id fst) (DExecute late_match_executor) =
     Some (Inr (Some (Joined_Tile 1 1 [(0, 0)]))) \<and>
   map_sum id fst (Old_DExecute late_match_executor) = Inr (Some (Joined_Tile 1 0 [(0, 0)]))"
proof -
  have d: "map_option (map_sum id fst) (DExecute late_match_executor) =
     Some (Inr (Some (Joined_Tile 1 1 [(0, 0)])))"
    by code_simp
  have e: "map_sum id fst (Old_DExecute late_match_executor) = Inr (Some (Joined_Tile 1 0 [(0, 0)]))"
    by code_simp
  have "map_option (map_sum id fst) (DExecute (empty_right_executor False)) = Some (Inl Out_Of_Range)"
    by code_simp
  then have a: "DExecute (empty_right_executor False) = Some (Inl Out_Of_Range)"
    by (rule projected_fault)
  have "map_option (map_sum id fst) (DExecute (empty_right_executor True)) = Some (Inl Out_Of_Range)"
    by code_simp
  then have b: "DExecute (empty_right_executor True) = Some (Inl Out_Of_Range)"
    by (rule projected_fault)
  have c: "map_sum id (\<lambda>(out, s). (out, left_child_done s, right_child_done s))
     (Old_DExecute (empty_right_executor False)) = Inr (None, False, True)"
    by code_simp
  from a b c d e show ?thesis by simp
qed

section \<open>Rows returned again by the outer completion\<close>

text \<open>
  One left batch with the keys 5 and 7 and an index scan that returns, for the pushed
  bound \<open>k\<close>, the one row \<open>(k, 10)\<close>: once as a full outer join on the equality of the
  keys, once as a right join under a predicate that is false on every pair.
\<close>

definition outer_two_key_executor :: executor where
  "outer_two_key_executor =
     fresh_executor (batch_source PLAN_NODE_TYPE_SEQSCAN (\<lambda>k. [[(True, [5]), (True, [7])]]))
       index_by_key (Some key_equality) JOIN_TYPE_OUTER False"

definition reject_all :: join_predicate where
  "reject_all = \<lparr>GetLeft = Some (TupleValueExpression 0), Evaluate = (\<lambda>l r. Is_False)\<rparr>"

definition right_two_key_executor :: executor where
  "right_two_key_executor =
     fresh_executor (batch_source PLAN_NODE_TYPE_SEQSCAN (\<lambda>k. [[(True, [5]), (True, [7])]]))
       index_by_key (Some reject_all) JOIN_TYPE_RIGHT False"

text \<open>
  C7 does not hold of \<open>DExecute\<close>. After the left child has reported exhaustion the loop
  probes the first left tile again and buffers the right row \<open>(5, 10)\<close> a second time, at
  position 2 of the right buffer, next to its first copy at position 0. In the full
  outer join the second call returns that row joined with the left row of key 5, through
  the copy at position 2, and leaves both flags set; the third call, which is the
  emitter's, returns the same row null-padded, through the copy at position 0, whose
  match bit was never set. In the right join the first call leaves both flags set and
  returns the row padded through position 0; the third call returns it padded again
  through position 2.
\<close>

theorem completion_returns_row_again:
  "successive_calls 6 outer_two_key_executor =
     [Joined_Tile 0 1 [(1, 0)], Joined_Tile 0 2 [(0, 0)], Right_Padded 0 [0]] \<and>
   map_option (\<lambda>s. (left_child_done s, right_child_done s, right_result_tiles s, right_matched s))
       (state_after 2 outer_two_key_executor) =
     Some (True, True, [[(True, [5, 10])], [(True, [7, 10])], [(True, [5, 10])]],
           [[False], [True], [True]]) \<and>
   successive_calls 6 right_two_key_executor =
     [Right_Padded 0 [0], Right_Padded 1 [0], Right_Padded 2 [0]] \<and>
   map_option (\<lambda>s. (left_child_done s, right_child_done s, right_result_tiles s))
       (state_after 1 right_two_key_executor) =
     Some (True, True, [[(True, [5, 10])], [(True, [7, 10])], [(True, [5, 10])]])"
  by code_simp

section \<open>The correlated probe on concrete inputs\<close>

definition two_batch_index :: child_executor where
  "two_batch_index =
     batch_source PLAN_NODE_TYPE_INDEXSCAN (\<lambda>k. [[(True, [k, 10])], [(True, [k, 11])]])"

definition one_key_executor :: executor where
  "one_key_executor =
     fresh_executor (batch_source PLAN_NODE_TYPE_SEQSCAN (\<lambda>k. [[(True, [5])]]))
       two_batch_index (Some key_equality) JOIN_TYPE_INNER False"

definition only_key_5_index :: child_executor where
  "only_key_5_index =
     batch_source PLAN_NODE_TYPE_INDEXSCAN (\<lambda>k. if k = 5 then [[(True, [5, 10])]] else [])"

definition scenario_executor :: executor where
  "scenario_executor =
     fresh_executor (batch_source PLAN_NODE_TYPE_SEQSCAN (\<lambda>k. [[(True, [5]), (True, [7])]]))
       only_key_5_index (Some key_equality) JOIN_TYPE_LEFT False"

text \<open>
  C4 does not hold of the code. In \<open>one_key_executor\<close> the left child yields one batch
  with the one row of key 5, and the index scan returns two batches for the bound 5, with
  the rows \<open>(5, 10)\<close> and \<open>(5, 11)\<close>. The probe buffers both batches, but the left batch
  is paired with \<open>right_result_tiles_.back()\<close> only: the first call returns the left row
  with \<open>(5, 11)\<close>; the second call, the left child being exhausted, probes the row
  again, buffers both batches again and returns the left row with \<open>(5, 11)\<close> a second
  time; then both children are exhausted. The left row with \<open>(5, 10)\<close> is never
  returned. In \<open>scenario_executor\<close>, the last scenario of section 8 of the spec (keys 5
  and 7, one right row for 5, none for 7, left outer join), the pair of the key 5 is
  returned twice.
\<close>

theorem probe_pairs_last_batch_only:
  "successive_calls 5 one_key_executor = [Joined_Tile 0 1 [(0, 0)], Joined_Tile 0 3 [(0, 0)]] \<and>
   map_option (\<lambda>s. (right_result_tiles s, left_child_done s, right_child_done s))
     (state_after 2 one_key_executor) =
     Some ([[(True, [5, 10])], [(True, [5, 11])], [(True, [5, 10])], [(True, [5, 11])]],
           True, True) \<and>
   successive_calls 5 scenario_executor =
     [Joined_Tile 0 0 [(0, 0)], Joined_Tile 0 1 [(0, 0)], Left_Padded 0 [1]]"
  by code_simp

end
